theory Spec2Isabelle
  imports Main "HOL-Library.Word" "HOL-Library.While_Combinator"
begin

unbundle bit_operations_syntax

section \<open>Bit-vectors (bitset.h)\<close>

text \<open>
  A bitset is an array of 64-bit words (\<open>bits_t\<close>); a position (\<open>pos_t\<close>, 16 bits) selects
  word \<open>pos / 64\<close> and bit \<open>pos % 64\<close>. Positions are modelled as natural numbers; every
  place where the source converts to \<open>pos_t\<close> writes the reduction modulo \<open>2 ^ 16\<close> out.
\<close>

type_synonym bits = "64 word list"

definition get_bit :: "bits \<Rightarrow> nat \<Rightarrow> bool" where
  "get_bit bitset pos = (bitset ! (pos div 64) AND push_bit (pos mod 64) 1 \<noteq> 0)"

definition set_bit_bs :: "bits \<Rightarrow> nat \<Rightarrow> bits" where
  "set_bit_bs bitset pos =
     bitset[pos div 64 := bitset ! (pos div 64) OR push_bit (pos mod 64) 1]"

definition clear_bit :: "bits \<Rightarrow> nat \<Rightarrow> bits" where
  "clear_bit bitset pos =
     bitset[pos div 64 := bitset ! (pos div 64) AND NOT (push_bit (pos mod 64) 1)]"

text \<open>The loops \<open>for (index = 0; index < size; ++index)\<close> of bitset.h, by recursion on
  \<open>size\<close>; the early returns do not change the value returned.\<close>

primrec bitset_covers_all :: "bits \<Rightarrow> bits \<Rightarrow> nat \<Rightarrow> bool" where
  "bitset_covers_all lower cover 0 = True"
| "bitset_covers_all lower cover (Suc n) =
     (bitset_covers_all lower cover n \<and> lower ! n AND NOT (cover ! n) = 0)"

primrec bitset_covers_any :: "bits \<Rightarrow> bits \<Rightarrow> nat \<Rightarrow> bool" where
  "bitset_covers_any lower cover 0 = False"
| "bitset_covers_any lower cover (Suc n) =
     (bitset_covers_any lower cover n \<or> lower ! n AND cover ! n \<noteq> 0)"

primrec bitset_equals :: "bits \<Rightarrow> bits \<Rightarrow> nat \<Rightarrow> bool" where
  "bitset_equals first second 0 = True"
| "bitset_equals first second (Suc n) =
     (bitset_equals first second n \<and> first ! n = second ! n)"

definition bitset_xor :: "bits \<Rightarrow> bits \<Rightarrow> nat \<Rightarrow> bits" where
  "bitset_xor first second n = map (\<lambda>index. first ! index XOR second ! index) [0..<n]"

definition bitset_copy :: "bits \<Rightarrow> nat \<Rightarrow> bits" where
  "bitset_copy src n = map (\<lambda>index. src ! index) [0..<n]"

text \<open>\<open>memset(b, ~0, stride)\<close> and \<open>memset(b, 0, stride)\<close> over \<open>size\<close> words.\<close>

definition bitset_ones :: "nat \<Rightarrow> bits" where
  "bitset_ones n = replicate n (- 1)"

definition bitset_zeros :: "nat \<Rightarrow> bits" where
  "bitset_zeros n = replicate n 0"

text \<open>The sum of a position and a direction (\<open>dir_t\<close>, a signed offset), converted back
  to the 16-bit \<open>pos_t\<close>.\<close>

definition pos_add :: "nat \<Rightarrow> int \<Rightarrow> nat" where
  "pos_add pos direction = nat ((int pos + direction) mod 65536)"

section \<open>Context and problem (solver\_types.h, solver.c)\<close>

record context_t =
  width :: nat
  height :: nat
  area :: nat
  bitset_size :: nat
  bitset_stride :: nat
  state_count :: nat

text \<open>\<open>create_context\<close>: \<open>width\<close> and \<open>height\<close> are \<open>unsigned char\<close> (the sum with 2 is
  stored in a \<open>len_t\<close>, 8 bits), \<open>area\<close> is a \<open>pos_t\<close>, \<open>capacity\<close> is a \<open>size_t\<close>. The caches
  are allocated on first use; allocation failure is outside the model.\<close>

definition create_context :: "8 word \<Rightarrow> 8 word \<Rightarrow> 64 word \<Rightarrow> context_t" where
  "create_context w h capacity =
     \<lparr> width = unat (w + 2),
       height = unat (h + 2),
       area = (unat (w + 2) * unat (h + 2)) mod 65536,
       bitset_size = ((unat w + 2) * (unat h + 2) + 63) div 64,
       bitset_stride = (((unat w + 2) * (unat h + 2) + 63) div 64) * 8,
       state_count = unat (capacity + 1) \<rparr>"

record problem_t =
  goal_count :: nat
  player :: nat
  walls :: bits
  goals :: bits
  crates :: bits
  deadlocks :: bits
  heuristics :: "nat list"
  compilable :: bool
  potentially_solvable :: bool

text \<open>The four directions \<open>{-1, 1, width, -width}\<close>, in the order of the source.\<close>

definition directions :: "context_t \<Rightarrow> int list" where
  "directions ctx = [- 1, 1, int (width ctx), - int (width ctx)]"

subsection \<open>check\_reachability\<close>

text \<open>
  The flood fill keeps a stack of positions and the \<open>reach\<close> bitset. One turn of the
  \<open>while (top)\<close> loop pops a position, marks it and pushes each neighbour that is neither
  a wall nor marked. The stack is a list with its top at the head; the capacity of the
  scratch array (\<open>area\<close> entries) is not part of the model.
\<close>

definition reach_push :: "bits \<Rightarrow> bits \<Rightarrow> nat \<Rightarrow> nat list \<Rightarrow> int \<Rightarrow> nat list" where
  "reach_push walls' reach current stack direction =
     (let next = pos_add current direction in
      if get_bit walls' next \<or> get_bit reach next then stack else next # stack)"

definition reach_step :: "context_t \<Rightarrow> bits \<Rightarrow> bits \<times> nat list \<Rightarrow> bits \<times> nat list" where
  "reach_step ctx walls' s =
     (case s of (reach, stack) \<Rightarrow>
        (let current = hd stack;
             reach1 = set_bit_bs reach current
         in (reach1, foldl (reach_push walls' reach1 current) (tl stack) (directions ctx))))"

definition reach_fill :: "context_t \<Rightarrow> bits \<Rightarrow> nat \<Rightarrow> (bits \<times> nat list) option" where
  "reach_fill ctx walls' player' =
     while_option (\<lambda>s. snd s \<noteq> []) (reach_step ctx walls')
       (bitset_zeros (bitset_size ctx), [player'])"

definition check_reachability ::
  "context_t \<Rightarrow> bits \<Rightarrow> bits \<Rightarrow> bits \<Rightarrow> nat \<Rightarrow> bool option" where
  "check_reachability ctx crates' goals' walls' player' =
     (case reach_fill ctx walls' player' of
        None \<Rightarrow> None
      | Some (reach, stack) \<Rightarrow>
          Some (bitset_covers_all (bitset_xor crates' goals' (bitset_size ctx)) reach
                  (bitset_size ctx)))"

subsection \<open>generate\_deadlock\_map\<close>

text \<open>
  The deadlock bitset and the table of push distances, filled by a breadth-first
  expansion from every goal. The state of the inner \<open>while (front < back)\<close> loop is the
  pair of maps, the queue (every position enqueued in this pass) and \<open>front\<close>; \<open>back\<close> is
  the length of the queue. The capacity of the scratch queue is not part of the model.
\<close>

record dl_state =
  dl_deadlocks :: bits
  dl_heuristics :: "nat list"
  dl_queue :: "nat list"
  dl_front :: nat

definition dl_relax :: "bits \<Rightarrow> nat \<Rightarrow> nat \<Rightarrow> dl_state \<Rightarrow> int \<Rightarrow> dl_state" where
  "dl_relax walls' current cost s direction =
     (let next = pos_add current direction in
      if get_bit walls' next then s
      else if \<not> get_bit (dl_deadlocks s) next \<and> dl_heuristics s ! next \<le> cost then s
      else
        (let beyond = pos_add next direction in
         if get_bit walls' beyond then s
         else s\<lparr> dl_queue := dl_queue s @ [next],
                 dl_deadlocks := clear_bit (dl_deadlocks s) next,
                 dl_heuristics := (dl_heuristics s)[next := cost] \<rparr>))"

definition dl_step :: "context_t \<Rightarrow> bits \<Rightarrow> dl_state \<Rightarrow> dl_state" where
  "dl_step ctx walls' s =
     (let current = dl_queue s ! dl_front s;
          cost = (dl_heuristics s ! current + 1) mod 65536
      in foldl (dl_relax walls' current cost) (s\<lparr> dl_front := dl_front s + 1 \<rparr>)
           (directions ctx))"

definition dl_goal :: "context_t \<Rightarrow> problem_t \<Rightarrow> bits \<times> nat list \<Rightarrow> nat \<Rightarrow> (bits \<times> nat list) option" where
  "dl_goal ctx p m position =
     (if get_bit (goals p) position then
        map_option (\<lambda>s. (dl_deadlocks s, dl_heuristics s))
          (while_option (\<lambda>s. dl_front s < length (dl_queue s)) (dl_step ctx (walls p))
             \<lparr> dl_deadlocks = clear_bit (fst m) position,
               dl_heuristics = (snd m)[position := 0],
               dl_queue = [position],
               dl_front = 0 \<rparr>)
      else Some m)"

text \<open>The outer loop \<open>for (position = 0; position < area; ++position)\<close>.\<close>

fun dl_goals :: "context_t \<Rightarrow> problem_t \<Rightarrow> nat list \<Rightarrow> bits \<times> nat list \<Rightarrow> (bits \<times> nat list) option" where
  "dl_goals ctx p [] m = Some m"
| "dl_goals ctx p (position # positions) m =
     (case dl_goal ctx p m position of
        None \<Rightarrow> None
      | Some m' \<Rightarrow> dl_goals ctx p positions m')"

definition generate_deadlock_map :: "context_t \<Rightarrow> problem_t \<Rightarrow> problem_t option" where
  "generate_deadlock_map ctx p =
     map_option (\<lambda>m. p\<lparr> deadlocks := fst m, heuristics := snd m \<rparr>)
       (dl_goals ctx p [0..<area ctx]
          (bitset_ones (bitset_size ctx), replicate (area ctx) (area ctx)))"

subsection \<open>The 2x2 deadlock tests\<close>

text \<open>\<open>check_single_2x2_deadlock\<close>: the body of the loop over the two orthogonal
  directions, then the function.\<close>

definition single_2x2_ortho :: "problem_t \<Rightarrow> bits \<Rightarrow> nat \<Rightarrow> nat \<Rightarrow> nat \<Rightarrow> int \<Rightarrow> bool" where
  "single_2x2_ortho p crates' position p10 unsafe ortho =
     (let p01 = pos_add position ortho;
          c01 = get_bit crates' p01; w01 = get_bit (walls p) p01
      in if \<not> (c01 \<or> w01) then False
         else
           (let unsafe1 = (if c01 \<and> \<not> get_bit (goals p) p01 then unsafe + 1 else unsafe);
                p11 = pos_add p10 ortho;
                c11 = get_bit crates' p11; w11 = get_bit (walls p) p11
            in if \<not> (c11 \<or> w11) then False
               else
                 (let unsafe2 = (if c11 \<and> \<not> get_bit (goals p) p11 then unsafe1 + 1 else unsafe1)
                  in unsafe2 \<noteq> 0)))"

definition check_single_2x2_deadlock ::
  "context_t \<Rightarrow> problem_t \<Rightarrow> bits \<Rightarrow> nat \<Rightarrow> int \<Rightarrow> bool" where
  "check_single_2x2_deadlock ctx p crates' position direction =
     (let ortho0 = int (width ctx) + 1 - \<bar>direction\<bar>;
          unsafe = (if get_bit (goals p) position then 0 else 1);
          p10 = pos_add position direction;
          c10 = get_bit crates' p10; w10 = get_bit (walls p) p10
      in if \<not> (c10 \<or> w10) then False
         else
           (let unsafe' = (if c10 \<and> \<not> get_bit (goals p) p10 then unsafe + 1 else unsafe)
            in single_2x2_ortho p crates' position p10 unsafe' ortho0
               \<or> single_2x2_ortho p crates' position p10 unsafe' (- ortho0)))"

text \<open>\<open>check_all_2x2_deadlock\<close>: the count of unsafe crates of one window (0 as soon as a
  cell of the window is empty), the scan of a row and the scan of the rows. The loop bounds
  \<open>y_end = height - 1\<close> and \<open>x_end = width - 1\<close> are \<open>pos_t\<close> values.\<close>

fun window_unsafe :: "problem_t \<Rightarrow> nat \<Rightarrow> int list \<Rightarrow> nat \<Rightarrow> nat" where
  "window_unsafe p position [] unsafe = unsafe"
| "window_unsafe p position (offset # offsets) unsafe =
     (let neighbor = pos_add position offset;
          has_crate = get_bit (crates p) neighbor; has_wall = get_bit (walls p) neighbor
      in if \<not> (has_crate \<or> has_wall) then 0
         else window_unsafe p position offsets
                (if has_crate \<and> \<not> get_bit (goals p) neighbor then unsafe + 1 else unsafe))"

definition neighborhood :: "context_t \<Rightarrow> int list" where
  "neighborhood ctx = [0, 1, int (width ctx), int (width ctx) + 1]"

fun scan_row_2x2 :: "context_t \<Rightarrow> problem_t \<Rightarrow> nat \<Rightarrow> nat \<Rightarrow> bool \<times> nat" where
  "scan_row_2x2 ctx p 0 position = (False, position)"
| "scan_row_2x2 ctx p (Suc n) position =
     (if window_unsafe p position (neighborhood ctx) 0 \<noteq> 0 then (True, position)
      else scan_row_2x2 ctx p n ((position + 1) mod 65536))"

fun scan_rows_2x2 :: "context_t \<Rightarrow> problem_t \<Rightarrow> nat \<Rightarrow> nat \<Rightarrow> bool" where
  "scan_rows_2x2 ctx p 0 position = False"
| "scan_rows_2x2 ctx p (Suc n) position =
     (case scan_row_2x2 ctx p (nat ((int (width ctx) - 1) mod 65536)) position of
        (True, position') \<Rightarrow> True
      | (False, position') \<Rightarrow> scan_rows_2x2 ctx p n ((position' + 1) mod 65536))"

definition check_all_2x2_deadlock :: "context_t \<Rightarrow> problem_t \<Rightarrow> bool" where
  "check_all_2x2_deadlock ctx p =
     scan_rows_2x2 ctx p (nat ((int (height ctx) - 1) mod 65536)) 0"

subsection \<open>parse\_problem\<close>

text \<open>
  The parser's local variables: the three bitsets and the player under construction, the
  cell cursor \<open>position\<close> and the three counters (\<open>count_t\<close>, 16 bits), with the read
  cursor \<open>index\<close> (\<open>unsigned int\<close>, 32 bits) into the level string.
\<close>

record parser =
  ps_walls :: bits
  ps_goals :: bits
  ps_crates :: bits
  ps_player :: nat
  ps_position :: nat
  ps_goal_count :: nat
  ps_crate_count :: nat
  ps_player_count :: nat

record indexed = parser +
  ps_index :: nat

definition inc16 :: "nat \<Rightarrow> nat" where
  "inc16 n = (n + 1) mod 65536"

definition inc32 :: "nat \<Rightarrow> nat" where
  "inc32 n = (n + 1) mod 4294967296"

text \<open>A C string ends at its first NUL: the end of the list is read as the terminator. The
  loop stops at the first NUL it reads, so no index beyond the end of the list is read.\<close>

definition read_char :: "string \<Rightarrow> nat \<Rightarrow> char" where
  "read_char level_str index = (if index < length level_str then level_str ! index else CHR 0x00)"

text \<open>The cases of the \<open>switch\<close>; \<open>None\<close> is the \<open>default\<close> case (\<open>failed = true\<close>).\<close>

definition place_tile :: "char \<Rightarrow> 'a parser_scheme \<Rightarrow> 'a parser_scheme option" where
  "place_tile level_char st =
     (let position = ps_position st in
      if level_char = CHR ''W'' \<or> level_char = CHR ''w'' then Some st
      else if level_char = CHR ''.'' then
        Some (st\<lparr> ps_walls := clear_bit (ps_walls st) position \<rparr>)
      else if level_char = CHR ''0'' then
        Some (st\<lparr> ps_walls := clear_bit (ps_walls st) position,
                  ps_goals := set_bit_bs (ps_goals st) position,
                  ps_goal_count := inc16 (ps_goal_count st) \<rparr>)
      else if level_char = CHR ''1'' then
        Some (st\<lparr> ps_walls := clear_bit (ps_walls st) position,
                  ps_crates := set_bit_bs (ps_crates st) position,
                  ps_crate_count := inc16 (ps_crate_count st) \<rparr>)
      else if level_char = CHR ''A'' \<or> level_char = CHR ''a'' then
        Some (st\<lparr> ps_walls := clear_bit (ps_walls st) position,
                  ps_player := position,
                  ps_player_count := inc16 (ps_player_count st) \<rparr>)
      else if level_char = CHR ''g'' \<or> level_char = CHR ''G'' then
        Some (st\<lparr> ps_walls := clear_bit (ps_walls st) position,
                  ps_goals := set_bit_bs (ps_goals st) position,
                  ps_goal_count := inc16 (ps_goal_count st),
                  ps_crates := set_bit_bs (ps_crates st) position,
                  ps_crate_count := inc16 (ps_crate_count st) \<rparr>)
      else if level_char = CHR ''+'' then
        Some (st\<lparr> ps_walls := clear_bit (ps_walls st) position,
                  ps_goals := set_bit_bs (ps_goals st) position,
                  ps_goal_count := inc16 (ps_goal_count st),
                  ps_player := position,
                  ps_player_count := inc16 (ps_player_count st) \<rparr>)
      else None)"

text \<open>
  The \<open>do ... while (failed)\<close> loop of one cell. Its state is the flag \<open>failed\<close>, whether
  the loop was left by the jump to \<open>loop_end\<close>, and the parser; the loop starts with
  \<open>failed\<close> set, since the body runs once before the flag is tested. The body reads
  \<open>level_str[index++]\<close>, and \<open>index\<close> wraps at \<open>2^32\<close>: on a string without a tile and
  without a NUL in its first \<open>2^32\<close> characters the loop does not end, and the value is
  \<open>None\<close>.
\<close>

definition cell_body :: "string \<Rightarrow> indexed \<Rightarrow> bool \<times> bool \<times> indexed" where
  "cell_body level_str st =
     (let level_char = read_char level_str (ps_index st);
          st1 = st\<lparr> ps_index := inc32 (ps_index st) \<rparr>
      in if level_char = CHR 0x00 then (False, True, st1)
         else case place_tile level_char st1 of
                Some st' \<Rightarrow> (False, False, st')
              | None \<Rightarrow> (True, False, st1))"

definition parse_cell :: "string \<Rightarrow> indexed \<Rightarrow> (bool \<times> bool \<times> indexed) option" where
  "parse_cell level_str st =
     while_option (\<lambda>(failed, ended, st'). failed)
       (\<lambda>(failed, ended, st'). cell_body level_str st') (True, False, st)"

text \<open>The loop over the columns (\<open>for (i = 2; i < width; ++i)\<close>, that is \<open>width - 2\<close> turns,
  each ending with \<open>++position\<close>) and the loop over the rows. The flag tells whether
  \<open>loop_end\<close> was jumped to.\<close>

fun parse_row :: "string \<Rightarrow> nat \<Rightarrow> indexed \<Rightarrow> (bool \<times> indexed) option" where
  "parse_row level_str 0 st = Some (False, st)"
| "parse_row level_str (Suc n) st =
     (case parse_cell level_str st of
        None \<Rightarrow> None
      | Some (failed, ended, st') \<Rightarrow>
          if ended then Some (True, st')
          else parse_row level_str n (st'\<lparr> ps_position := inc16 (ps_position st') \<rparr>))"

fun parse_rows :: "context_t \<Rightarrow> string \<Rightarrow> nat \<Rightarrow> indexed \<Rightarrow> indexed option" where
  "parse_rows ctx level_str 0 st = Some st"
| "parse_rows ctx level_str (Suc n) st =
     (case parse_row level_str (width ctx - 2) st of
        None \<Rightarrow> None
      | Some (True, st') \<Rightarrow> Some st'
      | Some (False, st') \<Rightarrow>
          parse_rows ctx level_str n (st'\<lparr> ps_position := (ps_position st' + 2) mod 65536 \<rparr>))"

definition parse_tiles :: "context_t \<Rightarrow> problem_t \<Rightarrow> string \<Rightarrow> indexed option" where
  "parse_tiles ctx p level_str =
     parse_rows ctx level_str (height ctx - 2)
       \<lparr> ps_walls = bitset_ones (bitset_size ctx),
         ps_goals = bitset_zeros (bitset_size ctx),
         ps_crates = bitset_zeros (bitset_size ctx),
         ps_player = player p,
         ps_position = (width ctx + 1) mod 65536,
         ps_goal_count = 0, ps_crate_count = 0, ps_player_count = 0,
         ps_index = 0 \<rparr>"

text \<open>
  The code after \<open>loop_end\<close>: it stores the level and runs the three static checks in the
  order of the source, each only if the level is still valid. It gives the problem as
  written and the return value (the \<open>compilable\<close> flag); it is \<open>None\<close> if one of the two
  flood fills does not return.
\<close>

definition loop_end ::
  "context_t \<Rightarrow> problem_t \<Rightarrow> 'a parser_scheme \<Rightarrow> (problem_t \<times> bool) option" where
  "loop_end ctx p st =
     (let p1 = p\<lparr> walls := ps_walls st, goals := ps_goals st, crates := ps_crates st,
                  player := ps_player st, goal_count := ps_goal_count st \<rparr>;
          valid = (ps_player_count st = 1 \<and> ps_goal_count st = ps_crate_count st
                   \<and> \<not> bitset_equals (crates p1) (goals p1) (bitset_size ctx));
          p2 = p1\<lparr> compilable := valid \<rparr>;
          valid2 = (if valid then \<not> check_all_2x2_deadlock ctx p2 else valid)
      in case (if valid2 then generate_deadlock_map ctx p2 else Some p2) of
           None \<Rightarrow> None
         | Some p3 \<Rightarrow>
             (let valid3 = (if valid2
                   then \<not> bitset_covers_any (crates p3) (deadlocks p3) (bitset_size ctx)
                   else valid2)
              in case (if valid3
                    then check_reachability ctx (crates p3) (goals p3) (walls p3) (player p3)
                    else Some valid3) of
                   None \<Rightarrow> None
                 | Some valid4 \<Rightarrow>
                     Some (p3\<lparr> potentially_solvable := valid4 \<rparr>, compilable p3)))"

text \<open>\<open>parse_problem\<close>; \<open>None\<close> if the function does not return.\<close>

definition parse_problem :: "context_t \<Rightarrow> problem_t \<Rightarrow> string \<Rightarrow> (problem_t \<times> bool) option" where
  "parse_problem ctx p level_str =
     (case parse_tiles ctx p level_str of
        None \<Rightarrow> None
      | Some st \<Rightarrow> loop_end ctx p st)"

section \<open>Search states, the explored set and the result\<close>

text \<open>
  A search node (\<open>state_t\<close>). A pointer into \<open>state_cache\<close> is the index of the slot; the
  \<open>crates\<close> pointer is modelled by the bitset it points to (a bitset of \<open>bitset_cache\<close> is
  never written again once its state is stored). The breadth-first search only writes and
  reads the fields of \<open>node\<close>; the three remaining fields belong to the A* search.
\<close>

record node =
  parent :: "nat option"
  action :: char
  s_player :: nat
  s_crates :: bits
  cost :: nat

record 'p state_t = node +
  priority :: 'p
  heuristic :: nat
  heap_index :: int

record result_t =
  solved :: bool
  actions :: "string option"
  iterations :: nat
  limit_exceeded :: bool

definition create_result :: "bool \<Rightarrow> string option \<Rightarrow> nat \<Rightarrow> bool \<Rightarrow> result_t" where
  "create_result solved' actions' iterations' limit_exceeded' =
     \<lparr> solved = solved', actions = actions', iterations = iterations',
       limit_exceeded = limit_exceeded' \<rparr>"

text \<open>What a call does: it returns a result, or it reads or writes outside one of the
  preallocated arrays (undefined behaviour in C).\<close>

datatype run = Returns result_t | OutOfBounds

definition ACTIONS :: string where
  "ACTIONS = ''lrduLRDU''"

text \<open>\<open>state_compare\<close>, the equality of the explored set, with \<open>bitset_cmp\<close>.\<close>

fun bitset_cmp_from :: "bits \<Rightarrow> bits \<Rightarrow> nat list \<Rightarrow> int" where
  "bitset_cmp_from first second [] = 0"
| "bitset_cmp_from first second (index # rest) =
     (if first ! index < second ! index then 1
      else if first ! index > second ! index then - 1
      else bitset_cmp_from first second rest)"

definition bitset_cmp :: "bits \<Rightarrow> bits \<Rightarrow> nat \<Rightarrow> int" where
  "bitset_cmp first second n = bitset_cmp_from first second [0..<n]"

definition state_compare :: "context_t \<Rightarrow> 'a node_scheme \<Rightarrow> 'b node_scheme \<Rightarrow> int" where
  "state_compare ctx sa sb =
     (let player_difference = int (s_player sa) - int (s_player sb) in
      if player_difference = 0 then bitset_cmp (s_crates sa) (s_crates sb) (bitset_size ctx)
      else player_difference)"

text \<open>
  Modelled from the spec: hashmap.c (the third-party hash table) is not among the sources.
  By its contract the set holds pointers to stored states, \<open>hashmap_get\<close> returns the stored
  pointer whose state compares equal to the probe (or NULL), and \<open>hashmap_set\<close> adds a
  pointer; the hash function only places the entries. The set is the list of the stored
  indices.
\<close>

definition hashmap_get ::
  "context_t \<Rightarrow> 'a node_scheme list \<Rightarrow> nat list \<Rightarrow> 'b node_scheme \<Rightarrow> nat option" where
  "hashmap_get ctx cache hmap probe =
     find (\<lambda>i. state_compare ctx (cache ! i) probe = 0) hmap"

definition hashmap_set :: "nat list \<Rightarrow> nat \<Rightarrow> nat list" where
  "hashmap_set hmap i = hmap @ [i]"

text \<open>
  The solution string. The source writes the last action at index \<open>cost - 1\<close> and then
  walks \<open>cost - 1\<close> parent pointers, writing each visited node's action. \<open>None\<close> is a walk
  through a NULL parent, or \<open>cost = 0\<close> (the first write is then at index \<open>-1\<close>).
\<close>

fun backtrack :: "'a node_scheme list \<Rightarrow> nat option \<Rightarrow> nat \<Rightarrow> string option" where
  "backtrack cache ptr 0 = Some []"
| "backtrack cache None (Suc n) = None"
| "backtrack cache (Some i) (Suc n) =
     map_option (\<lambda>acts. acts @ [action (cache ! i)]) (backtrack cache (parent (cache ! i)) n)"

definition build_solution :: "'a node_scheme list \<Rightarrow> nat \<Rightarrow> nat \<Rightarrow> char \<Rightarrow> string option" where
  "build_solution cache parent' cost' action' =
     (if cost' = 0 then None
      else map_option (\<lambda>acts. acts @ [action']) (backtrack cache (Some parent') (cost' - 1)))"

definition found :: "'a node_scheme list \<Rightarrow> nat \<Rightarrow> nat \<Rightarrow> char \<Rightarrow> nat \<Rightarrow> run" where
  "found cache parent' cost' action' iterations' =
     (case build_solution cache parent' cost' action' of
        None \<Rightarrow> OutOfBounds
      | Some solution \<Rightarrow> Returns (create_result True (Some solution) iterations' False))"

section \<open>solve\_bfs\<close>

text \<open>
  The local variables of the search: \<open>bfs_cache\<close> is \<open>state_cache[0 .. free_state)\<close>, so
  \<open>free_state\<close> is its length; \<open>bfs_free_bits\<close> counts the bitsets taken from
  \<open>bitset_cache\<close>; \<open>bfs_result\<close> is set by a \<open>return\<close> inside the loops. Writing the child
  into the slot \<open>free_state\<close>, or a bitset into the slot \<open>free_bits\<close>, is out of bounds when
  that slot is not below \<open>state_count\<close>.
\<close>

record bfs_state =
  bfs_cache :: "node list"
  bfs_map :: "nat list"
  bfs_current :: nat
  bfs_free_bits :: nat
  bfs_iterations :: nat
  bfs_result :: "run option"

text \<open>The part of the loop body after the push test: the goal test, the child and the
  lookup.\<close>

definition bfs_child ::
  "context_t \<Rightarrow> problem_t \<Rightarrow> nat \<Rightarrow> nat \<Rightarrow> bfs_state \<Rightarrow> nat \<Rightarrow> bits \<Rightarrow> char \<Rightarrow> bool \<Rightarrow> bfs_state" where
  "bfs_child ctx p parent' cost' s player' crates' action' changed =
     (if changed \<and> bitset_equals crates' (goals p) (bitset_size ctx) then
        s\<lparr> bfs_result := Some (found (bfs_cache s) parent' cost' action' (bfs_iterations s)) \<rparr>
      else if state_count ctx \<le> length (bfs_cache s) then
        s\<lparr> bfs_result := Some OutOfBounds \<rparr>
      else
        (let child = \<lparr> parent = Some parent', action = action', s_player = player',
                       s_crates = crates', cost = cost' \<rparr>
         in case hashmap_get ctx (bfs_cache s) (bfs_map s) child of
              None \<Rightarrow>
                (let s' = s\<lparr> bfs_cache := bfs_cache s @ [child],
                              bfs_map := hashmap_set (bfs_map s) (length (bfs_cache s)) \<rparr>
                 in if length (bfs_cache s') = state_count ctx then
                      s'\<lparr> bfs_result :=
                            Some (Returns (create_result False None (bfs_iterations s) True)) \<rparr>
                    else s')
            | Some twin \<Rightarrow>
                (if changed then s\<lparr> bfs_free_bits := bfs_free_bits s - 1 \<rparr> else s)))"

text \<open>The body of \<open>for (index = 0; index < 4; index++)\<close>; it is skipped once the search
  has returned.\<close>

definition bfs_expand ::
  "context_t \<Rightarrow> problem_t \<Rightarrow> nat \<Rightarrow> nat \<Rightarrow> bfs_state \<Rightarrow> nat \<Rightarrow> bfs_state" where
  "bfs_expand ctx p parent' cost' s index =
     (if bfs_result s \<noteq> None then s
      else
        (let direction = directions ctx ! index;
             par = bfs_cache s ! parent';
             player' = pos_add (s_player par) direction
         in if get_bit (walls p) player' then s
            else if get_bit (s_crates par) player' then
              (let next = pos_add player' direction in
               if get_bit (walls p) next \<or> get_bit (s_crates par) next
                  \<or> get_bit (deadlocks p) next then s
               else if check_single_2x2_deadlock ctx p (s_crates par) next direction then s
               else if state_count ctx \<le> bfs_free_bits s then
                 s\<lparr> bfs_result := Some OutOfBounds \<rparr>
               else
                 bfs_child ctx p parent' cost' (s\<lparr> bfs_free_bits := bfs_free_bits s + 1 \<rparr>)
                   player'
                   (clear_bit (set_bit_bs (bitset_copy (s_crates par) (bitset_size ctx)) next)
                      player')
                   (ACTIONS ! (index + 4)) True)
            else bfs_child ctx p parent' cost' s player' (s_crates par) (ACTIONS ! index) False))"

text \<open>One turn of \<open>while (current != free_state)\<close>.\<close>

definition bfs_step :: "context_t \<Rightarrow> problem_t \<Rightarrow> nat \<Rightarrow> bfs_state \<Rightarrow> bfs_state" where
  "bfs_step ctx p max_iterations s =
     (if max_iterations > 0 \<and> bfs_iterations s \<ge> max_iterations then
        s\<lparr> bfs_result := Some (Returns (create_result False None (bfs_iterations s) True)) \<rparr>
      else
        (let parent' = bfs_current s;
             cost' = (cost (bfs_cache s ! parent') + 1) mod 65536
         in foldl (bfs_expand ctx p parent' cost')
              (s\<lparr> bfs_iterations := bfs_iterations s + 1, bfs_current := bfs_current s + 1 \<rparr>)
              [0..<4]))"

definition bfs_init :: "problem_t \<Rightarrow> bfs_state" where
  "bfs_init p =
     \<lparr> bfs_cache = [\<lparr> parent = None, action = CHR 0x00, s_player = player p,
                       s_crates = crates p, cost = 0 \<rparr>],
       bfs_map = hashmap_set [] 0,
       bfs_current = 0,
       bfs_free_bits = 0,
       bfs_iterations = 0,
       bfs_result = None \<rparr>"

definition bfs_loop :: "context_t \<Rightarrow> problem_t \<Rightarrow> nat \<Rightarrow> bfs_state option" where
  "bfs_loop ctx p max_iterations =
     while_option (\<lambda>s. bfs_result s = None \<and> bfs_current s \<noteq> length (bfs_cache s))
       (bfs_step ctx p max_iterations) (bfs_init p)"

text \<open>\<open>solve_bfs\<close>; \<open>None\<close> if the loop does not stop. The root's \<open>action\<close> field is never
  written by the source; the model stores NUL there.\<close>

definition solve_bfs :: "context_t \<Rightarrow> problem_t \<Rightarrow> nat \<Rightarrow> run option" where
  "solve_bfs ctx p max_iterations =
     (if \<not> potentially_solvable p then Some (Returns (create_result False None 0 False))
      else case bfs_loop ctx p max_iterations of
             None \<Rightarrow> None
           | Some s \<Rightarrow>
               (case bfs_result s of
                  Some r \<Rightarrow> Some r
                | None \<Rightarrow> Some (Returns (create_result False None (bfs_iterations s) False))))"

section \<open>The frontier of the A* search\<close>

text \<open>
  The heap \<open>min_heap[0 .. size)\<close> is a list of indices into the state cache, \<open>size\<close> is its
  length. A heap operation also writes the \<open>heap_index\<close> field of the states it moves, so it
  takes and returns the pair of the cache and the heap. The priority (a \<open>float\<close> in the
  source) is any ordered type here; the source only compares priorities with \<open><\<close>.
\<close>

definition swap_nodes ::
  "'p state_t list \<times> nat list \<Rightarrow> nat \<Rightarrow> nat \<Rightarrow> 'p state_t list \<times> nat list" where
  "swap_nodes ch upper_index lower_index =
     (case ch of (cache, min_heap) \<Rightarrow>
        (let upper = min_heap ! upper_index; lower = min_heap ! lower_index;
             cache1 = cache[lower := (cache ! lower)\<lparr> heap_index := int upper_index \<rparr>];
             cache2 = cache1[upper := (cache1 ! upper)\<lparr> heap_index := int lower_index \<rparr>]
         in (cache2, min_heap[upper_index := lower, lower_index := upper])))"

text \<open>\<open>heapify_bottomup\<close>: the node at \<open>node_index\<close> moves up while its priority is below
  its parent's (\<open>parent_index = node_index >> 1\<close>).\<close>

function heapify_bottomup ::
  "('p::order) state_t list \<times> nat list \<Rightarrow> nat \<Rightarrow> 'p state_t list \<times> nat list" where
  "heapify_bottomup ch node_index =
     (if node_index = 0 then ch
      else
        (let parent_index = node_index div 2;
             last = snd ch ! node_index;
             parent' = snd ch ! parent_index
         in if priority (fst ch ! last) < priority (fst ch ! parent') then
              heapify_bottomup (swap_nodes ch parent_index node_index) parent_index
            else ch))"
  by pat_completeness auto
termination
  by (relation "measure snd") auto

text \<open>\<open>heapify_topdown\<close>: the node at \<open>root_index\<close> moves down while the smaller of its
  children (\<open>root_index << 1\<close> and the next index, where below \<open>size\<close>) has a priority
  below its own.\<close>

function heapify_topdown ::
  "('p::order) state_t list \<times> nat list \<Rightarrow> nat \<Rightarrow> nat \<Rightarrow> 'p state_t list \<times> nat list" where
  "heapify_topdown ch root_index size' =
     (let child1_index = 2 * root_index in
      if child1_index \<ge> size' then ch
      else
        (let child2_index = child1_index + 1;
             min_child_index =
               (if child2_index < size'
                   \<and> priority (fst ch ! (snd ch ! child2_index))
                       < priority (fst ch ! (snd ch ! child1_index))
                then child2_index else child1_index);
             child = snd ch ! min_child_index;
             root = snd ch ! root_index
         in if priority (fst ch ! child) < priority (fst ch ! root) then
              heapify_topdown (swap_nodes ch root_index min_child_index) min_child_index size'
            else ch))"
  by pat_completeness auto
termination
proof (relation "measure (\<lambda>(ch, root_index, size'). size' - root_index)", goal_cases)
  case 1
  show ?case by simp
next
  case (2 ch root_index size' child1 child2 min_child child root)
  have "min_child \<noteq> root_index"
  proof
    assume "min_child = root_index"
    with 2 show False by simp
  qed
  with 2 show ?case by (auto split: if_splits)
qed

definition heap_insert ::
  "('p::order) state_t list \<times> nat list \<Rightarrow> nat \<Rightarrow> 'p state_t list \<times> nat list" where
  "heap_insert ch element =
     (case ch of (cache, min_heap) \<Rightarrow>
        (let index = length min_heap;
             ch1 = (cache[element := (cache ! element)\<lparr> heap_index := int index \<rparr>],
                    min_heap @ [element])
         in if index > 0 then heapify_bottomup ch1 index else ch1))"

text \<open>\<open>heap_pop\<close> returns the popped pointer with the new cache and heap.\<close>

definition heap_pop ::
  "('p::order) state_t list \<times> nat list \<Rightarrow> nat \<times> 'p state_t list \<times> nat list" where
  "heap_pop ch =
     (case ch of (cache, min_heap) \<Rightarrow>
        (let last_index = length min_heap - 1 in
         if last_index = 0 then (min_heap ! 0, cache, butlast min_heap)
         else
           (let last = min_heap ! last_index;
                root = min_heap ! 0;
                ch1 = (cache[last := (cache ! last)\<lparr> heap_index := 0 \<rparr>],
                       (butlast min_heap)[0 := last])
            in (root, heapify_topdown ch1 0 last_index))))"

section \<open>solve\_astar\<close>

text \<open>
  \<open>compute_heuristic\<close> adds the table entries of the crate cells in a \<open>cost_t\<close> (16 bits).
  The factors \<open>h_factor\<close> and \<open>g_factor\<close> are \<open>float\<close>s in the source; the model computes
  the priority exactly in an ordered ring, which is what the floating-point computation
  gives while the factors and the products are exactly representable (such as the integer
  factors 0 and 1 of the documented presets).
\<close>

definition compute_heuristic :: "context_t \<Rightarrow> problem_t \<Rightarrow> bits \<Rightarrow> nat" where
  "compute_heuristic ctx p crates' =
     foldl (\<lambda>h position.
              if get_bit crates' position then (h + heuristics p ! position) mod 65536 else h)
       0 [0..<area ctx]"

record 'p astar_state =
  as_cache :: "'p state_t list"
  as_map :: "nat list"
  as_heap :: "nat list"
  as_free_bits :: nat
  as_iterations :: nat
  as_result :: "run option"

text \<open>The decrease-key branch: the stored twin takes the new parent, action and cost when
  it is still in the heap and its cost was higher.\<close>

definition astar_update_twin ::
  "'p \<Rightarrow> 'p \<Rightarrow> nat \<Rightarrow> nat \<Rightarrow> char \<Rightarrow> nat \<Rightarrow> ('p::linordered_idom) astar_state \<Rightarrow> 'p astar_state" where
  "astar_update_twin h_factor g_factor parent' cost' action' twin s =
     (let t = as_cache s ! twin in
      if heap_index t \<ge> 0 \<and> cost t > cost' then
        (let t' = t\<lparr> parent := Some parent', action := action', cost := cost',
                      priority := h_factor * of_nat (heuristic t) + g_factor * of_nat cost' \<rparr>;
             ch = heapify_bottomup ((as_cache s)[twin := t'], as_heap s) (nat (heap_index t))
         in s\<lparr> as_cache := fst ch, as_heap := snd ch \<rparr>)
      else s)"

definition astar_child ::
  "context_t \<Rightarrow> problem_t \<Rightarrow> 'p \<Rightarrow> 'p \<Rightarrow> nat \<Rightarrow> nat \<Rightarrow> ('p::linordered_idom) astar_state
     \<Rightarrow> nat \<Rightarrow> bits \<Rightarrow> char \<Rightarrow> bool \<Rightarrow> 'p astar_state" where
  "astar_child ctx p h_factor g_factor parent' cost' s player' crates' action' changed =
     (if changed \<and> bitset_equals crates' (goals p) (bitset_size ctx) then
        s\<lparr> as_result := Some (found (as_cache s) parent' cost' action' (as_iterations s)) \<rparr>
      else if state_count ctx \<le> length (as_cache s) then
        s\<lparr> as_result := Some OutOfBounds \<rparr>
      else
        (let probe = \<lparr> parent = Some parent', action = action', s_player = player',
                       s_crates = crates', cost = cost' \<rparr>
         in case hashmap_get ctx (as_cache s) (as_map s) probe of
              None \<Rightarrow>
                (let h = (if changed then compute_heuristic ctx p crates'
                          else heuristic (as_cache s ! parent'));
                     child = \<lparr> parent = Some parent', action = action', s_player = player',
                               s_crates = crates', cost = cost',
                               priority = g_factor * of_nat cost' + h_factor * of_nat h,
                               heuristic = h, heap_index = - 1 \<rparr>;
                     ch = heap_insert (as_cache s @ [child], as_heap s) (length (as_cache s));
                     s' = s\<lparr> as_cache := fst ch,
                              as_map := hashmap_set (as_map s) (length (as_cache s)),
                              as_heap := snd ch \<rparr>
                 in if length (as_cache s') = state_count ctx then
                      s'\<lparr> as_result :=
                            Some (Returns (create_result False None (as_iterations s) True)) \<rparr>
                    else s')
            | Some twin \<Rightarrow>
                astar_update_twin h_factor g_factor parent' cost' action' twin
                  (if changed then s\<lparr> as_free_bits := as_free_bits s - 1 \<rparr> else s)))"

definition astar_expand ::
  "context_t \<Rightarrow> problem_t \<Rightarrow> 'p \<Rightarrow> 'p \<Rightarrow> nat \<Rightarrow> nat \<Rightarrow> ('p::linordered_idom) astar_state
     \<Rightarrow> nat \<Rightarrow> 'p astar_state" where
  "astar_expand ctx p h_factor g_factor parent' cost' s index =
     (if as_result s \<noteq> None then s
      else
        (let direction = directions ctx ! index;
             par = as_cache s ! parent';
             player' = pos_add (s_player par) direction
         in if get_bit (walls p) player' then s
            else if get_bit (s_crates par) player' then
              (let next = pos_add player' direction in
               if get_bit (walls p) next \<or> get_bit (s_crates par) next
                  \<or> get_bit (deadlocks p) next then s
               else if check_single_2x2_deadlock ctx p (s_crates par) next direction then s
               else if state_count ctx \<le> as_free_bits s then
                 s\<lparr> as_result := Some OutOfBounds \<rparr>
               else
                 astar_child ctx p h_factor g_factor parent' cost'
                   (s\<lparr> as_free_bits := as_free_bits s + 1 \<rparr>) player'
                   (clear_bit (set_bit_bs (bitset_copy (s_crates par) (bitset_size ctx)) next)
                      player')
                   (ACTIONS ! (index + 4)) True)
            else astar_child ctx p h_factor g_factor parent' cost' s player' (s_crates par)
                   (ACTIONS ! index) False))"

text \<open>One turn of \<open>while (heap_size)\<close>.\<close>

definition astar_step ::
  "context_t \<Rightarrow> problem_t \<Rightarrow> 'p \<Rightarrow> 'p \<Rightarrow> nat \<Rightarrow> ('p::linordered_idom) astar_state
     \<Rightarrow> 'p astar_state" where
  "astar_step ctx p h_factor g_factor max_iterations s =
     (if max_iterations > 0 \<and> as_iterations s \<ge> max_iterations then
        s\<lparr> as_result := Some (Returns (create_result False None (as_iterations s) True)) \<rparr>
      else
        (case heap_pop (as_cache s, as_heap s) of
           (parent', cache1, heap1) \<Rightarrow>
             (let cache2 = cache1[parent' := (cache1 ! parent')\<lparr> heap_index := - 1 \<rparr>];
                  cost' = (cost (cache2 ! parent') + 1) mod 65536
              in foldl (astar_expand ctx p h_factor g_factor parent' cost')
                   (s\<lparr> as_iterations := as_iterations s + 1, as_cache := cache2,
                        as_heap := heap1 \<rparr>)
                   [0..<4])))"

definition astar_init ::
  "context_t \<Rightarrow> problem_t \<Rightarrow> 'p \<Rightarrow> ('p::linordered_idom) astar_state" where
  "astar_init ctx p h_factor =
     (let h = compute_heuristic ctx p (crates p);
          root = \<lparr> parent = None, action = CHR 0x00, s_player = player p,
                   s_crates = crates p, cost = 0,
                   priority = h_factor * of_nat h, heuristic = h, heap_index = - 1 \<rparr>;
          ch = heap_insert ([root], []) 0
      in \<lparr> as_cache = fst ch,
           as_map = hashmap_set [] 0,
           as_heap = snd ch,
           as_free_bits = 0,
           as_iterations = 0,
           as_result = None \<rparr>)"

definition astar_loop ::
  "context_t \<Rightarrow> problem_t \<Rightarrow> 'p \<Rightarrow> 'p \<Rightarrow> nat \<Rightarrow> ('p::linordered_idom) astar_state option" where
  "astar_loop ctx p h_factor g_factor max_iterations =
     while_option (\<lambda>s. as_result s = None \<and> as_heap s \<noteq> [])
       (astar_step ctx p h_factor g_factor max_iterations) (astar_init ctx p h_factor)"

text \<open>\<open>solve_astar\<close>; \<open>None\<close> if the loop does not stop. A state's \<open>heap_index\<close> holds
  \<open>-1\<close> until \<open>heap_insert\<close> writes it.\<close>

definition solve_astar ::
  "context_t \<Rightarrow> problem_t \<Rightarrow> 'p \<Rightarrow> ('p::linordered_idom) \<Rightarrow> nat \<Rightarrow> run option" where
  "solve_astar ctx p h_factor g_factor max_iterations =
     (if \<not> potentially_solvable p then Some (Returns (create_result False None 0 False))
      else case astar_loop ctx p h_factor g_factor max_iterations of
             None \<Rightarrow> None
           | Some s \<Rightarrow>
               (case as_result s of
                  Some r \<Rightarrow> Some r
                | None \<Rightarrow> Some (Returns (create_result False None (as_iterations s) False))))"

section \<open>Replaying a solution (verify\_solution of test.c)\<close>

text \<open>
  The test harness applies an action string to the problem: each action moves the player
  one cell; a move into a wall fails; a move onto a crate must be an uppercase action and
  moves the crate one cell further, which must hold neither a wall nor a crate. The result
  is whether every step succeeded and the crates end on the goals.
\<close>

definition action_direction :: "context_t \<Rightarrow> char \<Rightarrow> int option" where
  "action_direction ctx a =
     (if a = CHR ''l'' \<or> a = CHR ''L'' then Some (- 1)
      else if a = CHR ''r'' \<or> a = CHR ''R'' then Some 1
      else if a = CHR ''u'' \<or> a = CHR ''U'' then Some (- int (width ctx))
      else if a = CHR ''d'' \<or> a = CHR ''D'' then Some (int (width ctx))
      else None)"

definition verify_step ::
  "context_t \<Rightarrow> problem_t \<Rightarrow> nat \<times> bits \<Rightarrow> char \<Rightarrow> (nat \<times> bits) option" where
  "verify_step ctx p s a =
     (case action_direction ctx a of
        None \<Rightarrow> None
      | Some direction \<Rightarrow>
          (let player' = pos_add (fst s) direction in
           if get_bit (walls p) player' then None
           else if get_bit (snd s) player' then
             (if of_char a \<ge> (of_char CHR ''a'' :: nat) then None
              else
                (let new_crate_pos = pos_add player' direction in
                 if get_bit (walls p) new_crate_pos then None
                 else if get_bit (snd s) new_crate_pos then None
                 else Some (player', set_bit_bs (clear_bit (snd s) player') new_crate_pos)))
           else Some (player', snd s)))"

fun verify_steps ::
  "context_t \<Rightarrow> problem_t \<Rightarrow> nat \<times> bits \<Rightarrow> string \<Rightarrow> (nat \<times> bits) option" where
  "verify_steps ctx p s [] = Some s"
| "verify_steps ctx p s (a # as) =
     (case verify_step ctx p s a of
        None \<Rightarrow> None
      | Some s' \<Rightarrow> verify_steps ctx p s' as)"

definition verify_solution :: "context_t \<Rightarrow> problem_t \<Rightarrow> string \<Rightarrow> bool" where
  "verify_solution ctx p acts =
     (case verify_steps ctx p (player p, crates p) acts of
        None \<Rightarrow> False
      | Some s \<Rightarrow> bitset_equals (snd s) (goals p) (bitset_size ctx))"

section \<open>Properties of the bit-vector operations\<close>

lemma get_bit_iff: "get_bit bitset pos = bit (bitset ! (pos div 64)) (pos mod 64)"
proof -
  have "(bitset ! (pos div 64) AND push_bit (pos mod 64) 1 \<noteq> 0) = bit (bitset ! (pos div 64)) (pos mod 64)"
    by (simp add: bit_iff_and_push_bit_not_eq_0)
  then show ?thesis by (simp add: get_bit_def)
qed

lemma length_set_bit_bs [simp]: "length (set_bit_bs b p) = length b"
  by (simp add: set_bit_bs_def)

lemma length_clear_bit [simp]: "length (clear_bit b p) = length b"
  by (simp add: clear_bit_def)

lemma pos_split: "(p::nat) = q \<longleftrightarrow> p div 64 = q div 64 \<and> p mod 64 = q mod 64"
  by (metis div_mult_mod_eq)

lemma get_bit_set:
  assumes "p < 64 * length b"
  shows "get_bit (set_bit_bs b p) q \<longleftrightarrow> q = p \<or> get_bit b q"
proof -
  have r: "p div 64 < length b" using assms by (simp add: less_mult_imp_div_less mult.commute)
  have m: "p mod 64 < 64" by simp
  show ?thesis
  proof (cases "q div 64 = p div 64")
    case True
    have "bit (b ! (p div 64) OR push_bit (p mod 64) (1::64 word)) (q mod 64)
          \<longleftrightarrow> bit (b ! (p div 64)) (q mod 64) \<or> q mod 64 = p mod 64"
      using m by (auto simp add: bit_or_iff bit_exp_iff)
    with True r show ?thesis
      by (auto simp add: get_bit_iff set_bit_bs_def pos_split [of q p])
  next
    case False
    then show ?thesis
      by (auto simp add: get_bit_iff set_bit_bs_def)
  qed
qed

lemma get_bit_clear:
  assumes "p < 64 * length b"
  shows "get_bit (clear_bit b p) q \<longleftrightarrow> q \<noteq> p \<and> get_bit b q"
proof -
  have r: "p div 64 < length b" using assms by (simp add: less_mult_imp_div_less mult.commute)
  have m: "p mod 64 < 64" by simp
  show ?thesis
  proof (cases "q div 64 = p div 64")
    case True
    have "bit (b ! (p div 64) AND NOT (push_bit (p mod 64) (1::64 word))) (q mod 64)
          \<longleftrightarrow> bit (b ! (p div 64)) (q mod 64) \<and> q mod 64 \<noteq> p mod 64"
      using m by (auto simp add: bit_and_iff bit_not_iff bit_exp_iff dest: bit_imp_le_length)
    with True r show ?thesis
      by (auto simp add: get_bit_iff clear_bit_def pos_split [of q p])
  next
    case False
    then show ?thesis
      by (auto simp add: get_bit_iff clear_bit_def)
  qed
qed

lemma get_bit_ones: "p < 64 * n \<Longrightarrow> get_bit (bitset_ones n) p"
proof -
  assume a: "p < 64 * n"
  then have "p div 64 < n" by (simp add: less_mult_imp_div_less mult.commute)
  moreover have "bit (- 1 :: 64 word) (p mod 64)" by (simp add: bit_minus_1_iff)
  ultimately show ?thesis by (simp add: get_bit_iff bitset_ones_def)
qed

lemma get_bit_zeros: "p < 64 * n \<Longrightarrow> \<not> get_bit (bitset_zeros n) p"
proof -
  assume a: "p < 64 * n"
  then have "p div 64 < n" by (simp add: less_mult_imp_div_less mult.commute)
  then show ?thesis by (simp add: get_bit_iff bitset_zeros_def)
qed

lemma length_bitset_ones [simp]: "length (bitset_ones n) = n"
  by (simp add: bitset_ones_def)

lemma length_bitset_zeros [simp]: "length (bitset_zeros n) = n"
  by (simp add: bitset_zeros_def)

lemma words_eq_iff: "(\<forall>i<n. (a::bits) ! i = b ! i) \<longleftrightarrow> (\<forall>p<64 * n. get_bit a p = get_bit b p)"
proof
  assume h: "\<forall>i<n. a ! i = b ! i"
  show "\<forall>p<64 * n. get_bit a p = get_bit b p"
  proof (intro allI impI)
    fix p assume "p < 64 * n"
    then have "p div 64 < n" by (simp add: less_mult_imp_div_less mult.commute)
    with h show "get_bit a p = get_bit b p" by (simp add: get_bit_iff)
  qed
next
  assume h: "\<forall>p<64 * n. get_bit a p = get_bit b p"
  show "\<forall>i<n. a ! i = b ! i"
  proof (intro allI impI)
    fix i assume i: "i < n"
    show "a ! i = b ! i"
    proof (rule bit_word_eqI)
      fix k assume "k < LENGTH(64)"
      then have k: "k < 64" by simp
      then have "64 * i + k < 64 * n" using i by simp
      with h have "get_bit a (64 * i + k) = get_bit b (64 * i + k)" by blast
      with k show "bit (a ! i) k = bit (b ! i) k" by (simp add: get_bit_iff)
    qed
  qed
qed

lemma bitset_equals_words: "bitset_equals a b n \<longleftrightarrow> (\<forall>i<n. a ! i = b ! i)"
  by (induction n) (auto simp add: less_Suc_eq)

lemma bitset_equals_iff: "bitset_equals a b n \<longleftrightarrow> (\<forall>p<64 * n. get_bit a p = get_bit b p)"
  by (simp add: bitset_equals_words words_eq_iff)

lemma bitset_equals_eq: "length a = n \<Longrightarrow> length b = n \<Longrightarrow> bitset_equals a b n \<longleftrightarrow> a = b"
  by (auto simp add: bitset_equals_words list_eq_iff_nth_eq)

lemma word_and_zero_iff: "(x AND y = 0) \<longleftrightarrow> (\<forall>k<64. \<not> (bit (x::64 word) k \<and> bit y k))"
proof
  assume "x AND y = 0"
  then have "\<forall>k. bit (x AND y) k = bit (0::64 word) k" by simp
  then show "\<forall>k<64. \<not> (bit x k \<and> bit y k)" by (simp add: bit_and_iff)
next
  assume h: "\<forall>k<64. \<not> (bit x k \<and> bit y k)"
  show "x AND y = 0"
  proof (rule bit_word_eqI)
    fix k assume "k < LENGTH(64)"
    with h show "bit (x AND y) k = bit (0::64 word) k" by (simp add: bit_and_iff)
  qed
qed

lemma pos_of_word_bit: "(i::nat) < n \<Longrightarrow> (k::nat) < 64 \<Longrightarrow> 64 * i + k < 64 * n \<and> (64 * i + k) div 64 = i \<and> (64 * i + k) mod 64 = k"
  by simp

lemma bitset_covers_any_words:
  "bitset_covers_any a b n \<longleftrightarrow> (\<exists>i<n. a ! i AND b ! i \<noteq> 0)"
  by (induction n) (auto simp add: less_Suc_eq)

lemma bitset_covers_any_iff:
  "bitset_covers_any a b n \<longleftrightarrow> (\<exists>p<64 * n. get_bit a p \<and> get_bit b p)"
proof
  assume "bitset_covers_any a b n"
  then obtain i where i: "i < n" "a ! i AND b ! i \<noteq> 0"
    by (auto simp add: bitset_covers_any_words)
  then obtain k where k: "k < 64" "bit (a ! i) k" "bit (b ! i) k"
    by (auto simp add: word_and_zero_iff)
  from i k pos_of_word_bit [of i n k] show "\<exists>p<64 * n. get_bit a p \<and> get_bit b p"
    by (intro exI [of _ "64 * i + k"]) (simp add: get_bit_iff)
next
  assume "\<exists>p<64 * n. get_bit a p \<and> get_bit b p"
  then obtain p where p: "p < 64 * n" "get_bit a p" "get_bit b p" by blast
  then have "p div 64 < n" by (simp add: less_mult_imp_div_less mult.commute)
  moreover have "a ! (p div 64) AND b ! (p div 64) \<noteq> 0"
    using p by (auto simp add: get_bit_iff word_and_zero_iff intro: exI [of _ "p mod 64"])
  ultimately show "bitset_covers_any a b n"
    by (auto simp add: bitset_covers_any_words)
qed

lemma bitset_covers_all_words:
  "bitset_covers_all a b n \<longleftrightarrow> (\<forall>i<n. a ! i AND NOT (b ! i) = 0)"
  by (induction n) (auto simp add: less_Suc_eq)

lemma bitset_covers_all_iff:
  "bitset_covers_all a b n \<longleftrightarrow> (\<forall>p<64 * n. get_bit a p \<longrightarrow> get_bit b p)"
proof
  assume h: "bitset_covers_all a b n"
  show "\<forall>p<64 * n. get_bit a p \<longrightarrow> get_bit b p"
  proof (intro allI impI)
    fix p assume p: "p < 64 * n" "get_bit a p"
    then have "p div 64 < n" by (simp add: less_mult_imp_div_less mult.commute)
    with h have "a ! (p div 64) AND NOT (b ! (p div 64)) = 0"
      by (simp add: bitset_covers_all_words)
    then have "\<not> (bit (a ! (p div 64)) (p mod 64) \<and> bit (NOT (b ! (p div 64))) (p mod 64))"
      by (simp add: word_and_zero_iff)
    with p show "get_bit b p" by (simp add: get_bit_iff bit_not_iff)
  qed
next
  assume h: "\<forall>p<64 * n. get_bit a p \<longrightarrow> get_bit b p"
  have "\<forall>i<n. a ! i AND NOT (b ! i) = 0"
  proof (intro allI impI)
    fix i assume i: "i < n"
    have "\<forall>k<64. \<not> (bit (a ! i) k \<and> bit (NOT (b ! i)) k)"
    proof (intro allI impI)
      fix k :: nat assume k: "k < 64"
      from h pos_of_word_bit [OF i k]
      have "get_bit a (64 * i + k) \<longrightarrow> get_bit b (64 * i + k)" by blast
      with k show "\<not> (bit (a ! i) k \<and> bit (NOT (b ! i)) k)"
        by (simp add: get_bit_iff bit_not_iff)
    qed
    then show "a ! i AND NOT (b ! i) = 0" by (simp add: word_and_zero_iff)
  qed
  then show "bitset_covers_all a b n" by (simp add: bitset_covers_all_words)
qed

lemma length_bitset_xor [simp]: "length (bitset_xor a b n) = n"
  by (simp add: bitset_xor_def)

lemma get_bit_xor:
  "p < 64 * n \<Longrightarrow> get_bit (bitset_xor a b n) p \<longleftrightarrow> get_bit a p \<noteq> get_bit b p"
proof -
  assume "p < 64 * n"
  then have "p div 64 < n" by (simp add: less_mult_imp_div_less mult.commute)
  then show ?thesis by (simp add: get_bit_iff bitset_xor_def bit_xor_iff)
qed

lemma length_bitset_copy [simp]: "length (bitset_copy a n) = n"
  by (simp add: bitset_copy_def)

lemma bitset_copy_same: "length a = n \<Longrightarrow> bitset_copy a n = a"
  by (simp add: bitset_copy_def list_eq_iff_nth_eq)

section \<open>Properties of parse\_problem\<close>

subsection \<open>The parser on the unread rest of the string\<close>

text \<open>
  While \<open>index\<close> has not wrapped, the parser is a recursion on the unread rest of the
  string, \<open>level_str + index\<close>. The functions \<open>suffix_cell\<close>, \<open>suffix_row\<close>, \<open>suffix_rows\<close> and
  \<open>suffix_tiles\<close> are the loops in that form; they are shown below to compute what the
  loops of \<open>parse_problem\<close> compute on every string of fewer than \<open>2^32\<close> characters
  before its first NUL.
\<close>

record suffixed = parser +
  ps_rest :: string

fun suffix_cell :: "suffixed \<Rightarrow> string \<Rightarrow> suffixed option" where
  "suffix_cell st [] = None"
| "suffix_cell st (level_char # rest) =
     (if level_char = CHR 0x00 then None
      else case place_tile level_char st of
             Some st' \<Rightarrow> Some (st'\<lparr> ps_rest := rest, ps_position := inc16 (ps_position st') \<rparr>)
           | None \<Rightarrow> suffix_cell st rest)"

fun suffix_row :: "nat \<Rightarrow> suffixed \<Rightarrow> bool \<times> suffixed" where
  "suffix_row 0 st = (False, st)"
| "suffix_row (Suc n) st =
     (case suffix_cell st (ps_rest st) of
        None \<Rightarrow> (True, st)
      | Some st' \<Rightarrow> suffix_row n st')"

fun suffix_rows :: "context_t \<Rightarrow> nat \<Rightarrow> suffixed \<Rightarrow> suffixed" where
  "suffix_rows ctx 0 st = st"
| "suffix_rows ctx (Suc n) st =
     (case suffix_row (width ctx - 2) st of
        (True, st') \<Rightarrow> st'
      | (False, st') \<Rightarrow>
          suffix_rows ctx n (st'\<lparr> ps_position := (ps_position st' + 2) mod 65536 \<rparr>))"

definition suffix_tiles :: "context_t \<Rightarrow> problem_t \<Rightarrow> string \<Rightarrow> suffixed" where
  "suffix_tiles ctx p level_str =
     suffix_rows ctx (height ctx - 2)
       \<lparr> ps_walls = bitset_ones (bitset_size ctx),
         ps_goals = bitset_zeros (bitset_size ctx),
         ps_crates = bitset_zeros (bitset_size ctx),
         ps_player = player p,
         ps_position = (width ctx + 1) mod 65536,
         ps_goal_count = 0, ps_crate_count = 0, ps_player_count = 0,
         ps_rest = level_str \<rparr>"

definition suffix_problem :: "context_t \<Rightarrow> problem_t \<Rightarrow> string \<Rightarrow> (problem_t \<times> bool) option" where
  "suffix_problem ctx p level_str = loop_end ctx p (suffix_tiles ctx p level_str)"

subsection \<open>The tiles of a level string\<close>

text \<open>The tile alphabet (\<open>is_tile\<close> of test.c) and what each tile puts into its cell.\<close>

definition is_tile :: "char \<Rightarrow> bool" where
  "is_tile c = (c = CHR ''.'' \<or> c = CHR ''w'' \<or> c = CHR ''W'' \<or> c = CHR ''a'' \<or> c = CHR ''A''
     \<or> c = CHR ''0'' \<or> c = CHR ''1'' \<or> c = CHR ''g'' \<or> c = CHR ''G'' \<or> c = CHR ''+'')"

definition tile_wall :: "char \<Rightarrow> bool" where
  "tile_wall c = (c = CHR ''W'' \<or> c = CHR ''w'')"

definition tile_goal :: "char \<Rightarrow> bool" where
  "tile_goal c = (c = CHR ''0'' \<or> c = CHR ''g'' \<or> c = CHR ''G'' \<or> c = CHR ''+'')"

definition tile_crate :: "char \<Rightarrow> bool" where
  "tile_crate c = (c = CHR ''1'' \<or> c = CHR ''g'' \<or> c = CHR ''G'')"

definition tile_player :: "char \<Rightarrow> bool" where
  "tile_player c = (c = CHR ''A'' \<or> c = CHR ''a'' \<or> c = CHR ''+'')"

text \<open>The tiles a level string holds (its tile characters before the first NUL), the
  tiles that fit into the interior of the grid, and the position of the \<open>k\<close>-th interior
  cell in row-major order.\<close>

definition string_tiles :: "string \<Rightarrow> string" where
  "string_tiles level_str = filter is_tile (takeWhile (\<lambda>c. c \<noteq> CHR 0x00) level_str)"

definition level_tiles :: "context_t \<Rightarrow> string \<Rightarrow> string" where
  "level_tiles ctx level_str =
     take ((width ctx - 2) * (height ctx - 2)) (string_tiles level_str)"

definition cell_position :: "context_t \<Rightarrow> nat \<Rightarrow> nat" where
  "cell_position ctx k =
     (k div (width ctx - 2) + 1) * width ctx + k mod (width ctx - 2) + 1"

text \<open>The effect of one tile on the parser, as one record.\<close>

definition tile_placed :: "char \<Rightarrow> 'a parser_scheme \<Rightarrow> 'a parser_scheme" where
  "tile_placed c st =
     st\<lparr> ps_walls := (if tile_wall c then ps_walls st else clear_bit (ps_walls st) (ps_position st)),
         ps_goals := (if tile_goal c then set_bit_bs (ps_goals st) (ps_position st) else ps_goals st),
         ps_crates := (if tile_crate c then set_bit_bs (ps_crates st) (ps_position st) else ps_crates st),
         ps_player := (if tile_player c then ps_position st else ps_player st),
         ps_goal_count := (if tile_goal c then inc16 (ps_goal_count st) else ps_goal_count st),
         ps_crate_count := (if tile_crate c then inc16 (ps_crate_count st) else ps_crate_count st),
         ps_player_count := (if tile_player c then inc16 (ps_player_count st) else ps_player_count st) \<rparr>"

lemma place_tile_None: "\<not> is_tile c \<Longrightarrow> place_tile c st = None"
  by (simp add: place_tile_def is_tile_def Let_def)

lemma place_tile_Some: "is_tile c \<Longrightarrow> place_tile c st = Some (tile_placed c st)"
  unfolding is_tile_def
  by (elim disjE)
     (simp_all add: place_tile_def tile_placed_def tile_wall_def tile_goal_def tile_crate_def
        tile_player_def Let_def)

lemma ps_position_tile_placed [simp]: "ps_position (tile_placed c st) = ps_position st"
  by (simp add: tile_placed_def)

lemma string_tiles_Nil [simp]: "string_tiles [] = []"
  by (simp add: string_tiles_def)

lemma string_tiles_Cons:
  "string_tiles (c # cs) =
     (if c = CHR 0x00 then [] else if is_tile c then c # string_tiles cs else string_tiles cs)"
  by (simp add: string_tiles_def)

lemma nul_not_tile: "\<not> is_tile (CHR 0x00)"
  by (simp add: is_tile_def)

lemma suffix_cell_None: "string_tiles rest = [] \<Longrightarrow> suffix_cell st rest = None"
  by (induction rest) (auto simp add: string_tiles_Cons place_tile_None split: if_splits)

lemma suffix_cell_Some:
  "string_tiles rest = t # ts \<Longrightarrow>
   \<exists>rest'. suffix_cell st rest
            = Some ((tile_placed t st)\<lparr> ps_rest := rest', ps_position := inc16 (ps_position st) \<rparr>)
          \<and> string_tiles rest' = ts"
proof (induction rest)
  case Nil
  then show ?case by simp
next
  case (Cons c cs)
  show ?case
  proof (cases "c = CHR 0x00")
    case True
    with Cons.prems show ?thesis by (simp add: string_tiles_Cons)
  next
    case False
    show ?thesis
    proof (cases "is_tile c")
      case True
      with False Cons.prems have "c = t" "string_tiles cs = ts"
        by (simp_all add: string_tiles_Cons)
      with True False show ?thesis
        by (intro exI [of _ cs]) (simp add: place_tile_Some)
    next
      case nt: False
      with False Cons.prems have "string_tiles cs = t # ts"
        by (simp add: string_tiles_Cons)
      from Cons.IH [OF this] nt False show ?thesis
        by (simp add: place_tile_None)
    qed
  qed
qed

subsection \<open>The parser's invariant\<close>

definition wf_context :: "context_t \<Rightarrow> bool" where
  "wf_context ctx \<longleftrightarrow>
     width ctx < 256 \<and> height ctx < 256 \<and> area ctx = width ctx * height ctx
     \<and> area ctx \<le> 64 * bitset_size ctx"

lemma round_up_64: "(y::nat) \<le> 64 * ((y + 63) div 64)"
  by arith

lemma unat_plus2_le: "unat ((w::8 word) + 2) \<le> unat w + 2"
proof -
  have "unat (w + 2) = (unat w + 2) mod 256" by (simp add: unat_word_ariths)
  then show ?thesis by simp
qed

lemma unat_u8_less: "unat (x::8 word) < 256"
  using unsigned_less [of x] by simp

lemma small_product: "(a::nat) < 256 \<Longrightarrow> b < 256 \<Longrightarrow> a * b < 65536"
proof -
  assume "a < 256" "b < 256"
  then have "a * b \<le> 255 * 255" by (intro mult_le_mono) simp_all
  then show ?thesis by simp
qed

lemma wf_create_context: "wf_context (create_context w h capacity)"
proof -
  define W where "W = unat (w + 2)"
  define H where "H = unat (h + 2)"
  define y where "y = (unat w + 2) * (unat h + 2)"
  have w: "W < 256" and h: "H < 256" by (simp_all add: W_def H_def unat_u8_less)
  then have a: "W * H mod 65536 = W * H" using small_product by simp
  have "W * H \<le> y" unfolding W_def H_def y_def
    by (intro mult_le_mono unat_plus2_le)
  also have "y \<le> 64 * ((y + 63) div 64)" by (rule round_up_64)
  finally have "W * H \<le> 64 * ((y + 63) div 64)" .
  with w h a show ?thesis
    unfolding wf_context_def create_context_def W_def H_def y_def by simp
qed

text \<open>Arithmetic of the cell positions; \<open>n\<close> is the number of interior columns.\<close>

lemma cell_position_row:
  assumes "i < width ctx - 2"
  shows "cell_position ctx (r * (width ctx - 2) + i) = (r + 1) * width ctx + i + 1"
  using assms by (simp add: cell_position_def)

lemma row_position_less:
  assumes "r < height ctx - 2" "i < width ctx - 2"
  shows "(r + 1) * width ctx + i + 1 < width ctx * height ctx"
proof -
  have "(r + 1) * width ctx \<le> (height ctx - 2) * width ctx"
    using assms(1) by (intro mult_le_mono1) simp
  then have "(r + 1) * width ctx + i + 1 < (height ctx - 2) * width ctx + width ctx"
    using assms(2) by simp
  also have "\<dots> = (height ctx - 1) * width ctx"
  proof -
    have "height ctx - 1 = Suc (height ctx - 2)" using assms(1) by simp
    then show ?thesis by simp
  qed
  also have "\<dots> \<le> width ctx * height ctx" by (simp add: mult.commute)
  finally show ?thesis .
qed

lemma cell_position_less:
  assumes "k < (width ctx - 2) * (height ctx - 2)"
  shows "cell_position ctx k < width ctx * height ctx"
proof -
  let ?n = "width ctx - 2"
  have n: "0 < ?n" using assms by (cases "?n = 0") simp_all
  have "k div ?n < height ctx - 2"
    using assms n by (simp add: less_mult_imp_div_less mult.commute)
  moreover have "k mod ?n < ?n" using n by simp
  ultimately have "(k div ?n + 1) * width ctx + k mod ?n + 1 < width ctx * height ctx"
    by (rule row_position_less)
  then show ?thesis by (simp add: cell_position_def)
qed

lemma div_mod_decompose: "(a::nat) < w \<Longrightarrow> (a + q * w) div w = q \<and> (a + q * w) mod w = a"
  by simp

lemma cell_position_div_mod:
  assumes "0 < width ctx - 2"
  shows "cell_position ctx k div width ctx = k div (width ctx - 2) + 1"
    and "cell_position ctx k mod width ctx = k mod (width ctx - 2) + 1"
proof -
  let ?n = "width ctx - 2"
  have "k mod ?n < ?n" using assms by simp
  then have m: "k mod ?n + 1 < width ctx" by arith
  have e: "cell_position ctx k = (k mod ?n + 1) + (k div ?n + 1) * width ctx"
    by (simp add: cell_position_def)
  show "cell_position ctx k div width ctx = k div ?n + 1"
    unfolding e using div_mod_decompose [OF m] by blast
  show "cell_position ctx k mod width ctx = k mod ?n + 1"
    unfolding e using div_mod_decompose [OF m] by blast
qed

lemma cell_position_inj:
  assumes "0 < width ctx - 2" "cell_position ctx j = cell_position ctx k"
  shows "j = k"
proof -
  from assms cell_position_div_mod [OF assms(1)]
  have "j div (width ctx - 2) = k div (width ctx - 2)" "j mod (width ctx - 2) = k mod (width ctx - 2)"
    by (metis add_right_cancel)+
  then show ?thesis by (metis div_mult_mod_eq)
qed

text \<open>
  \<open>parsed ctx T player0 st k\<close>: the parser \<open>st\<close> has placed the first \<open>k\<close> tiles of \<open>T\<close> into the
  first \<open>k\<close> interior cells, starting from all walls, no goals and no crates.
\<close>

definition player_after :: "context_t \<Rightarrow> nat \<Rightarrow> string \<Rightarrow> nat \<Rightarrow> nat" where
  "player_after ctx player0 T k =
     foldl (\<lambda>pl j. if tile_player (T ! j) then cell_position ctx j else pl) player0 [0..<k]"

definition parsed :: "context_t \<Rightarrow> string \<Rightarrow> nat \<Rightarrow> suffixed \<Rightarrow> nat \<Rightarrow> bool" where
  "parsed ctx T player0 st k \<longleftrightarrow>
     length (ps_walls st) = bitset_size ctx \<and> length (ps_goals st) = bitset_size ctx
     \<and> length (ps_crates st) = bitset_size ctx
     \<and> (\<forall>pos<64 * bitset_size ctx.
          get_bit (ps_walls st) pos = (\<forall>j<k. pos = cell_position ctx j \<longrightarrow> tile_wall (T ! j)))
     \<and> (\<forall>pos<64 * bitset_size ctx.
          get_bit (ps_goals st) pos = (\<exists>j<k. pos = cell_position ctx j \<and> tile_goal (T ! j)))
     \<and> (\<forall>pos<64 * bitset_size ctx.
          get_bit (ps_crates st) pos = (\<exists>j<k. pos = cell_position ctx j \<and> tile_crate (T ! j)))
     \<and> ps_goal_count st = length (filter tile_goal (take k T)) mod 65536
     \<and> ps_crate_count st = length (filter tile_crate (take k T)) mod 65536
     \<and> ps_player_count st = length (filter tile_player (take k T)) mod 65536
     \<and> ps_player st = player_after ctx player0 T k
     \<and> string_tiles (ps_rest st) = drop k T
     \<and> k \<le> length T"

lemma inc16_mod: "inc16 (a mod 65536) = Suc a mod 65536"
  by (simp add: inc16_def mod_Suc_eq)

lemma filter_take_Suc:
  "k < length T \<Longrightarrow>
   length (filter P (take (Suc k) T)) = (if P (T ! k) then Suc (length (filter P (take k T))) else length (filter P (take k T)))"
  by (simp add: take_Suc_conv_app_nth)

lemma player_after_Suc:
  "player_after ctx player0 T (Suc k) =
     (if tile_player (T ! k) then cell_position ctx k else player_after ctx player0 T k)"
  by (simp add: player_after_def)

lemma parsed_step:
  assumes wf: "wf_context ctx"
    and inv: "parsed ctx T player0 st k"
    and k: "k < length T" "k < (width ctx - 2) * (height ctx - 2)"
    and pos: "ps_position st = cell_position ctx k"
    and rest: "string_tiles rest' = drop (Suc k) T"
  shows "parsed ctx T player0 ((tile_placed (T ! k) st)\<lparr> ps_rest := rest', ps_position := q \<rparr>) (Suc k)"
proof -
  let ?t = "T ! k"
  let ?p = "cell_position ctx k"
  let ?N = "64 * bitset_size ctx"
  have "?p < width ctx * height ctx" using k(2) by (rule cell_position_less)
  with wf have r: "?p < ?N" by (simp add: wf_context_def)
  from inv have len: "length (ps_walls st) = bitset_size ctx" "length (ps_goals st) = bitset_size ctx"
    "length (ps_crates st) = bitset_size ctx"
    by (simp_all add: parsed_def)
  from inv have w: "\<forall>pos<?N. get_bit (ps_walls st) pos = (\<forall>j<k. pos = cell_position ctx j \<longrightarrow> tile_wall (T ! j))"
    by (simp add: parsed_def)
  from inv have g: "\<forall>pos<?N. get_bit (ps_goals st) pos = (\<exists>j<k. pos = cell_position ctx j \<and> tile_goal (T ! j))"
    by (simp add: parsed_def)
  from inv have c: "\<forall>pos<?N. get_bit (ps_crates st) pos = (\<exists>j<k. pos = cell_position ctx j \<and> tile_crate (T ! j))"
    by (simp add: parsed_def)
  from inv have counts: "ps_goal_count st = length (filter tile_goal (take k T)) mod 65536"
     "ps_crate_count st = length (filter tile_crate (take k T)) mod 65536"
     "ps_player_count st = length (filter tile_player (take k T)) mod 65536"
     "ps_player st = player_after ctx player0 T k"
    by (simp_all add: parsed_def)
  have w': "\<forall>pos<?N. get_bit (if tile_wall ?t then ps_walls st else clear_bit (ps_walls st) ?p) pos
       = (\<forall>j<Suc k. pos = cell_position ctx j \<longrightarrow> tile_wall (T ! j))"
    using w r len by (auto simp add: get_bit_clear less_Suc_eq)
  have g': "\<forall>pos<?N. get_bit (if tile_goal ?t then set_bit_bs (ps_goals st) ?p else ps_goals st) pos
       = (\<exists>j<Suc k. pos = cell_position ctx j \<and> tile_goal (T ! j))"
    using g r len by (auto simp add: get_bit_set less_Suc_eq)
  have c': "\<forall>pos<?N. get_bit (if tile_crate ?t then set_bit_bs (ps_crates st) ?p else ps_crates st) pos
       = (\<exists>j<Suc k. pos = cell_position ctx j \<and> tile_crate (T ! j))"
    using c r len by (auto simp add: get_bit_set less_Suc_eq)
  define st' where "st' = (tile_placed (T ! k) st)\<lparr> ps_rest := rest', ps_position := q \<rparr>"
  have f: "ps_walls st' = (if tile_wall ?t then ps_walls st else clear_bit (ps_walls st) ?p)"
    "ps_goals st' = (if tile_goal ?t then set_bit_bs (ps_goals st) ?p else ps_goals st)"
    "ps_crates st' = (if tile_crate ?t then set_bit_bs (ps_crates st) ?p else ps_crates st)"
    "ps_rest st' = rest'"
    by (simp_all add: st'_def tile_placed_def pos)
  have n: "ps_goal_count st' = length (filter tile_goal (take (Suc k) T)) mod 65536"
    "ps_crate_count st' = length (filter tile_crate (take (Suc k) T)) mod 65536"
    "ps_player_count st' = length (filter tile_player (take (Suc k) T)) mod 65536"
    "ps_player st' = player_after ctx player0 T (Suc k)"
    using counts k(1) pos
    by (simp_all add: st'_def tile_placed_def inc16_mod filter_take_Suc player_after_Suc)
  have l: "length (ps_walls st') = bitset_size ctx" "length (ps_goals st') = bitset_size ctx"
    "length (ps_crates st') = bitset_size ctx"
    using len by (simp_all add: f)
  have "parsed ctx T player0 st' (Suc k)"
    unfolding parsed_def
    using l n rest w' g' c' k(1) by (simp only: f) simp
  then show ?thesis by (simp only: st'_def)
qed


lemma parsed_position [simp]:
  "parsed ctx T player0 (st\<lparr> ps_position := q \<rparr>) k = parsed ctx T player0 st k"
  by (simp add: parsed_def)

lemma row_position_small:
  assumes "wf_context ctx" "r < height ctx - 2" "i < width ctx - 2"
  shows "(r + 1) * width ctx + i + 1 < 65535"
proof -
  have "(r + 1) * width ctx + i + 1 < width ctx * height ctx"
    using assms(2,3) by (rule row_position_less)
  moreover have "width ctx * height ctx \<le> 255 * 255"
    using assms(1) by (intro mult_le_mono) (simp_all add: wf_context_def)
  ultimately show ?thesis by simp
qed

lemma suffix_row_inv:
  assumes wf: "wf_context ctx"
    and r: "r < height ctx - 2"
  shows "parsed ctx T player0 st (r * (width ctx - 2) + i) \<Longrightarrow> i + m = width ctx - 2 \<Longrightarrow>
     ps_position st = (r + 1) * width ctx + i + 1 \<Longrightarrow>
     (case suffix_row m st of
        (True, st') \<Rightarrow> parsed ctx T player0 st' (length T)
                        \<and> length T < r * (width ctx - 2) + (width ctx - 2)
      | (False, st') \<Rightarrow> parsed ctx T player0 st' (r * (width ctx - 2) + (width ctx - 2))
                        \<and> ps_position st' = (r + 1) * width ctx + (width ctx - 2) + 1)"
proof (induction m arbitrary: i st)
  case 0
  then show ?case by simp
next
  case (Suc m)
  let ?n = "width ctx - 2"
  let ?k = "r * ?n + i"
  from Suc.prems have i: "i < ?n" by simp
  from Suc.prems(1) have dr: "string_tiles (ps_rest st) = drop ?k T" and kl: "?k \<le> length T"
    by (simp_all add: parsed_def)
  show ?case
  proof (cases "drop ?k T")
    case Nil
    with kl have e: "length T = ?k" by simp
    from Nil dr have "suffix_cell st (ps_rest st) = None" by (simp add: suffix_cell_None)
    with Suc.prems(1) e i show ?thesis by simp
  next
    case (Cons t ts)
    then have kT: "?k < length T" by (cases "?k < length T") simp_all
    from Cons Cons_nth_drop_Suc [OF kT] have t: "t = T ! ?k" "ts = drop (Suc ?k) T"
      by simp_all
    from suffix_cell_Some [of "ps_rest st" t ts st] dr Cons
    obtain rest' where pc: "suffix_cell st (ps_rest st)
        = Some ((tile_placed t st)\<lparr> ps_rest := rest', ps_position := inc16 (ps_position st) \<rparr>)"
      and rs: "string_tiles rest' = ts" by auto
    let ?st' = "(tile_placed t st)\<lparr> ps_rest := rest', ps_position := inc16 (ps_position st) \<rparr>"
    have "Suc r * ?n \<le> (height ctx - 2) * ?n" using r by (intro mult_le_mono1) simp
    then have "r * ?n + ?n \<le> ?n * (height ctx - 2)" by (simp add: mult.commute)
    with i have kb: "?k < ?n * (height ctx - 2)" by simp
    have cp: "ps_position st = cell_position ctx ?k"
      using Suc.prems(3) i by (simp add: cell_position_row)
    have inv': "parsed ctx T player0 ?st' (Suc ?k)"
      using parsed_step [OF wf Suc.prems(1) kT kb cp, of rest'] rs t by simp
    have "(r + 1) * width ctx + i + 1 < 65535" using wf r i by (rule row_position_small)
    then have pos': "ps_position ?st' = (r + 1) * width ctx + Suc i + 1"
      using Suc.prems(3) by (simp add: inc16_def)
    from inv' have inv'': "parsed ctx T player0 ?st' (r * ?n + Suc i)" by simp
    from Suc.prems(2) have "Suc i + m = ?n" by simp
    from Suc.IH [OF inv'' this pos'] pc show ?thesis by simp
  qed
qed

lemma suffix_rows_inv:
  assumes wf: "wf_context ctx"
  shows "parsed ctx T player0 st (r * (width ctx - 2)) \<Longrightarrow> r + m = height ctx - 2 \<Longrightarrow>
     ps_position st = (r + 1) * width ctx + 1 \<Longrightarrow>
     parsed ctx T player0 (suffix_rows ctx m st)
       (min (length T) ((width ctx - 2) * (height ctx - 2)))"
proof (induction m arbitrary: r st)
  case 0
  then have "r * (width ctx - 2) \<le> length T" by (simp add: parsed_def)
  with 0 show ?case by (simp add: min_def mult.commute)
next
  case (Suc m)
  let ?n = "width ctx - 2"
  from Suc.prems have r: "r < height ctx - 2" by simp
  from Suc.prems(1) have inv0: "parsed ctx T player0 st (r * ?n + 0)" by simp
  have row: "case suffix_row ?n st of
        (True, st') \<Rightarrow> parsed ctx T player0 st' (length T) \<and> length T < r * ?n + ?n
      | (False, st') \<Rightarrow> parsed ctx T player0 st' (r * ?n + ?n)
                        \<and> ps_position st' = (r + 1) * width ctx + ?n + 1"
    using suffix_row_inv [OF wf r inv0, of ?n] Suc.prems(3) by simp
  obtain ended st' where pr: "suffix_row ?n st = (ended, st')" by (cases "suffix_row ?n st")
  have "Suc r * ?n \<le> (height ctx - 2) * ?n" using r by (intro mult_le_mono1) simp
  then have le: "r * ?n + ?n \<le> ?n * (height ctx - 2)" by (simp add: mult.commute)
  show ?case
  proof (cases ended)
    case True
    with row pr have p: "parsed ctx T player0 st' (length T)" and l: "length T < r * ?n + ?n"
      by simp_all
    from l le have "min (length T) (?n * (height ctx - 2)) = length T"
      by simp
    with p pr True show ?thesis by simp
  next
    case False
    with row pr have p: "parsed ctx T player0 st' (Suc r * ?n)"
      and q: "ps_position st' = (r + 1) * width ctx + ?n + 1"
      by (simp_all add: add.commute)
    let ?st'' = "st'\<lparr> ps_position := (ps_position st' + 2) mod 65536 \<rparr>"
    have p'': "parsed ctx T player0 ?st'' (Suc r * ?n)" using p by simp
    have rm: "Suc r + m = height ctx - 2" using Suc.prems(2) by simp
    show ?thesis
    proof (cases "?n = 0")
      case True
      have "parsed ctx T player0 (suffix_rows ctx m' s) (min (length T) (?n * (height ctx - 2)))"
        if "parsed ctx T player0 s 0" for m' s
        using that True
      proof (induction m' arbitrary: s)
        case 0
        then show ?case by simp
      next
        case (Suc m')
        have "suffix_row 0 s = (False, s)" by simp
        with Suc show ?case by simp
      qed
      from this [of ?st'' m] p'' True pr False show ?thesis by simp
    next
      case nz: False
      then have wd: "?n + 2 = width ctx" by simp
      have "Suc r + 1 \<le> 254" "width ctx \<le> 255"
        using wf r by (auto simp add: wf_context_def)
      then have "(Suc r + 1) * width ctx \<le> 254 * 255"
        by (rule mult_le_mono)
      then have small: "(Suc r + 1) * width ctx + 1 < 65536" by simp
      have "ps_position st' + 2 = (r + 1) * width ctx + (?n + 2) + 1" using q by simp
      also have "\<dots> = (Suc r + 1) * width ctx + 1" by (simp only: wd) simp
      finally have "ps_position st' + 2 = (Suc r + 1) * width ctx + 1" .
      with small have q'': "ps_position ?st'' = (Suc r + 1) * width ctx + 1" by simp
      from Suc.IH [OF p'' rm q''] pr False show ?thesis by simp
    qed
  qed
qed

lemma suffix_tiles_parsed:
  assumes wf: "wf_context ctx"
  shows "parsed ctx (string_tiles level_str) (player p) (suffix_tiles ctx p level_str)
           (length (level_tiles ctx level_str))"
proof -
  let ?T = "string_tiles level_str"
  let ?st = "\<lparr> ps_walls = bitset_ones (bitset_size ctx),
         ps_goals = bitset_zeros (bitset_size ctx),
         ps_crates = bitset_zeros (bitset_size ctx),
         ps_player = player p,
         ps_position = (width ctx + 1) mod 65536,
         ps_goal_count = 0, ps_crate_count = 0, ps_player_count = 0,
         ps_rest = level_str \<rparr>"
  have init: "parsed ctx ?T (player p) ?st (0 * (width ctx - 2))"
    by (simp add: parsed_def get_bit_ones get_bit_zeros player_after_def)
  have "width ctx + 1 < 65536" using wf by (simp add: wf_context_def)
  then have pos: "ps_position ?st = (0 + 1) * width ctx + 1" by simp
  have "0 + (height ctx - 2) = height ctx - 2" by simp
  from suffix_rows_inv [OF wf init this pos]
  show ?thesis by (simp add: suffix_tiles_def level_tiles_def)
qed

section \<open>Well-formed walls\<close>

text \<open>
  A position is inner when its eight neighbours are positions of the grid. The walls are
  closed when every position of the bitset that is not a wall is inner: the outer ring and
  the padding bits of the last word are walls.
\<close>

definition inner :: "context_t \<Rightarrow> nat \<Rightarrow> bool" where
  "inner ctx pos \<longleftrightarrow> width ctx < pos \<and> pos + width ctx + 1 < area ctx"

definition closed_walls :: "context_t \<Rightarrow> bits \<Rightarrow> bool" where
  "closed_walls ctx ws \<longleftrightarrow>
     length ws = bitset_size ctx
     \<and> (\<forall>pos<64 * bitset_size ctx. \<not> get_bit ws pos \<longrightarrow> inner ctx pos)"

lemma area_small: "wf_context ctx \<Longrightarrow> area ctx < 65536"
  by (simp add: wf_context_def small_product)

lemma pos_add_inner:
  assumes "wf_context ctx" "inner ctx pos" "d \<in> set (directions ctx)"
  shows "int (pos_add pos d) = int pos + d" and "pos_add pos d < area ctx"
    and "pos_add pos d < 64 * bitset_size ctx"
proof -
  from assms(1) have a: "area ctx < 65536" by (rule area_small)
  from assms(2) have i: "width ctx < pos" "pos + width ctx + 1 < area ctx"
    by (simp_all add: inner_def)
  from assms(3) have d: "d = - 1 \<or> d = 1 \<or> d = int (width ctx) \<or> d = - int (width ctx)"
    by (auto simp add: directions_def)
  from d i a have r: "0 \<le> int pos + d" "int pos + d < int (area ctx)" "int pos + d < 65536"
    by auto
  then have m: "(int pos + d) mod 65536 = int pos + d" by simp
  show "int (pos_add pos d) = int pos + d" using r by (simp add: pos_add_def m)
  show l: "pos_add pos d < area ctx" using r by (simp add: pos_add_def m)
  from assms(1) l show "pos_add pos d < 64 * bitset_size ctx" by (simp add: wf_context_def)
qed

lemma inner_in_range: "wf_context ctx \<Longrightarrow> inner ctx pos \<Longrightarrow> pos < 64 * bitset_size ctx"
  by (simp add: inner_def wf_context_def)

lemma closed_walls_step:
  assumes "wf_context ctx" "closed_walls ctx ws" "inner ctx pos" "d \<in> set (directions ctx)"
    "\<not> get_bit ws (pos_add pos d)"
  shows "inner ctx (pos_add pos d)"
  using assms pos_add_inner(3) [OF assms(1,3,4)] by (simp add: closed_walls_def)

section \<open>Properties of check\_reachability\<close>

text \<open>The cells the player can walk to: the reflexive transitive closure of one step in
  one of the four directions onto a cell that is not a wall.\<close>

inductive_set reachable :: "context_t \<Rightarrow> bits \<Rightarrow> nat \<Rightarrow> nat set"
  for ctx :: context_t and ws :: bits and start :: nat where
  start: "start \<in> reachable ctx ws start"
| step: "a \<in> reachable ctx ws start \<Longrightarrow> d \<in> set (directions ctx)
         \<Longrightarrow> \<not> get_bit ws (pos_add a d) \<Longrightarrow> pos_add a d \<in> reachable ctx ws start"

lemma reachable_inner:
  assumes "wf_context ctx" "closed_walls ctx ws" "inner ctx start"
  shows "a \<in> reachable ctx ws start \<Longrightarrow> inner ctx a"
  by (induction rule: reachable.induct) (auto intro: assms closed_walls_step [OF assms(1,2)])

text \<open>The pushes of one turn of the loop.\<close>

lemma foldl_reach_push:
  "foldl (reach_push ws reach c) stack ds
     = rev (filter (\<lambda>n. \<not> get_bit ws n \<and> \<not> get_bit reach n) (map (pos_add c) ds)) @ stack"
  by (induction ds arbitrary: stack) (simp_all add: reach_push_def Let_def)

definition pushed :: "context_t \<Rightarrow> bits \<Rightarrow> bits \<Rightarrow> nat \<Rightarrow> nat list" where
  "pushed ctx ws reach c =
     rev (filter (\<lambda>n. \<not> get_bit ws n \<and> \<not> get_bit reach n) (map (pos_add c) (directions ctx)))"

lemma set_pushed:
  "set (pushed ctx ws reach c)
     = {n. (\<exists>d \<in> set (directions ctx). n = pos_add c d) \<and> \<not> get_bit ws n \<and> \<not> get_bit reach n}"
  by (auto simp add: pushed_def)

lemma reach_step_eq:
  "reach_step ctx ws (reach, c # stack)
     = (set_bit_bs reach c, pushed ctx ws (set_bit_bs reach c) c @ stack)"
  by (simp add: reach_step_def foldl_reach_push pushed_def Let_def)

text \<open>The invariant of the flood fill.\<close>

definition reach_inv :: "context_t \<Rightarrow> bits \<Rightarrow> nat \<Rightarrow> bits \<times> nat list \<Rightarrow> bool" where
  "reach_inv ctx ws start s \<longleftrightarrow>
     (case s of (reach, stack) \<Rightarrow>
        length reach = bitset_size ctx
        \<and> (\<forall>x \<in> set stack. x \<in> reachable ctx ws start)
        \<and> (\<forall>pos<64 * bitset_size ctx. get_bit reach pos \<longrightarrow> pos \<in> reachable ctx ws start)
        \<and> (get_bit reach start \<or> start \<in> set stack)
        \<and> (\<forall>pos<64 * bitset_size ctx. get_bit reach pos \<longrightarrow>
              (\<forall>d \<in> set (directions ctx).
                 get_bit ws (pos_add pos d) \<or> get_bit reach (pos_add pos d)
                 \<or> pos_add pos d \<in> set stack))
        \<and> (\<forall>i<length stack. get_bit reach (stack ! i) \<longrightarrow>
              (\<forall>d \<in> set (directions ctx).
                 get_bit ws (pos_add (stack ! i) d) \<or> get_bit reach (pos_add (stack ! i) d)
                 \<or> pos_add (stack ! i) d \<in> set (take i stack))))"

lemma reach_inv_init:
  assumes "wf_context ctx" "inner ctx start"
  shows "reach_inv ctx ws start (bitset_zeros (bitset_size ctx), [start])"
proof -
  have "start < 64 * bitset_size ctx" using assms by (rule inner_in_range)
  then have "\<not> get_bit (bitset_zeros (bitset_size ctx)) start" by (rule get_bit_zeros)
  then show ?thesis
    by (simp add: reach_inv_def get_bit_zeros reachable.start)
qed

lemma reach_inv_step:
  assumes wf: "wf_context ctx" and cw: "closed_walls ctx ws" and st: "inner ctx start"
    and inv: "reach_inv ctx ws start (reach, c # stack)"
  shows "reach_inv ctx ws start (reach_step ctx ws (reach, c # stack))"
proof -
  let ?N = "64 * bitset_size ctx"
  let ?R = "reachable ctx ws start"
  let ?r1 = "set_bit_bs reach c"
  let ?P = "pushed ctx ws ?r1 c"
  from inv have len: "length reach = bitset_size ctx"
    and stk: "\<forall>x \<in> set (c # stack). x \<in> ?R"
    and snd: "\<forall>pos<?N. get_bit reach pos \<longrightarrow> pos \<in> ?R"
    and pl: "get_bit reach start \<or> start \<in> set (c # stack)"
    and cl: "\<forall>pos<?N. get_bit reach pos \<longrightarrow>
              (\<forall>d \<in> set (directions ctx).
                 get_bit ws (pos_add pos d) \<or> get_bit reach (pos_add pos d)
                 \<or> pos_add pos d \<in> set (c # stack))"
    and lifo: "\<forall>i<length (c # stack). get_bit reach ((c # stack) ! i) \<longrightarrow>
              (\<forall>d \<in> set (directions ctx).
                 get_bit ws (pos_add ((c # stack) ! i) d) \<or> get_bit reach (pos_add ((c # stack) ! i) d)
                 \<or> pos_add ((c # stack) ! i) d \<in> set (take i (c # stack)))"
    by (simp_all add: reach_inv_def)
  from stk have cR: "c \<in> ?R" by simp
  then have ci: "inner ctx c" by (rule reachable_inner [OF wf cw st])
  then have cN: "c < ?N" by (rule inner_in_range [OF wf])
  with len have cl': "c < 64 * length reach" by simp
  have g1: "get_bit ?r1 q \<longleftrightarrow> q = c \<or> get_bit reach q" for q
    using cl' by (rule get_bit_set)
  have P: "set ?P = {n. (\<exists>d \<in> set (directions ctx). n = pos_add c d) \<and> \<not> get_bit ws n \<and> \<not> get_bit ?r1 n}"
    by (rule set_pushed)
  have a1: "length ?r1 = bitset_size ctx" using len by simp
  have a2: "\<forall>x \<in> set (?P @ stack). x \<in> ?R"
    using stk cR by (auto simp add: P intro: reachable.step)
  have a3: "\<forall>pos<?N. get_bit ?r1 pos \<longrightarrow> pos \<in> ?R"
    using snd cR by (auto simp add: g1)
  have a4: "get_bit ?r1 start \<or> start \<in> set (?P @ stack)"
    using pl by (auto simp add: g1)
  have a5: "\<forall>pos<?N. get_bit ?r1 pos \<longrightarrow>
              (\<forall>d \<in> set (directions ctx).
                 get_bit ws (pos_add pos d) \<or> get_bit ?r1 (pos_add pos d)
                 \<or> pos_add pos d \<in> set (?P @ stack))"
  proof (intro allI impI ballI)
    fix pos d assume pos: "pos < ?N" "get_bit ?r1 pos" and d: "d \<in> set (directions ctx)"
    show "get_bit ws (pos_add pos d) \<or> get_bit ?r1 (pos_add pos d) \<or> pos_add pos d \<in> set (?P @ stack)"
    proof (cases "pos = c")
      case True
      with d show ?thesis by (auto simp add: P)
    next
      case False
      with pos have "get_bit reach pos" by (simp add: g1)
      with cl pos(1) d have "get_bit ws (pos_add pos d) \<or> get_bit reach (pos_add pos d)
                 \<or> pos_add pos d \<in> set (c # stack)" by blast
      then show ?thesis by (auto simp add: g1)
    qed
  qed
  have a6: "\<forall>i<length (?P @ stack). get_bit ?r1 ((?P @ stack) ! i) \<longrightarrow>
              (\<forall>d \<in> set (directions ctx).
                 get_bit ws (pos_add ((?P @ stack) ! i) d) \<or> get_bit ?r1 (pos_add ((?P @ stack) ! i) d)
                 \<or> pos_add ((?P @ stack) ! i) d \<in> set (take i (?P @ stack)))"
  proof (intro allI impI ballI)
    fix i d
    assume i: "i < length (?P @ stack)" and r: "get_bit ?r1 ((?P @ stack) ! i)"
      and d: "d \<in> set (directions ctx)"
    let ?x = "(?P @ stack) ! i"
    show "get_bit ws (pos_add ?x d) \<or> get_bit ?r1 (pos_add ?x d) \<or> pos_add ?x d \<in> set (take i (?P @ stack))"
    proof (cases "i < length ?P")
      case True
      then have "?x \<in> set ?P" by (simp add: nth_append)
      then have "\<not> get_bit ?r1 ?x" by (simp add: P)
      with r show ?thesis by simp
    next
      case False
      define j where "j = i - length ?P"
      from False i have j: "j < length stack" "i = length ?P + j" by (simp_all add: j_def)
      then have x: "?x = stack ! j" by (simp add: nth_append)
      have tk: "set (take i (?P @ stack)) = set ?P \<union> set (take j stack)"
        using j by simp
      show ?thesis
      proof (cases "?x = c")
        case True
        have "get_bit ws (pos_add c d) \<or> get_bit ?r1 (pos_add c d) \<or> pos_add c d \<in> set ?P"
          using d by (auto simp add: P)
        then show ?thesis unfolding True tk by blast
      next
        case nc: False
        with r have "get_bit reach ((c # stack) ! Suc j)" by (simp add: g1 x)
        with lifo j(1) d
        have "get_bit ws (pos_add (stack ! j) d) \<or> get_bit reach (pos_add (stack ! j) d)
                 \<or> pos_add (stack ! j) d \<in> set (take (Suc j) (c # stack))"
          by (metis Suc_less_eq length_Cons nth_Cons_Suc)
        then have "get_bit ws (pos_add (stack ! j) d) \<or> get_bit ?r1 (pos_add (stack ! j) d)
                 \<or> pos_add (stack ! j) d \<in> set ?P \<union> set (take j stack)"
          by (auto simp add: g1)
        then show ?thesis unfolding x tk by blast
      qed
    qed
  qed
  show ?thesis
    unfolding reach_step_eq reach_inv_def prod.case
    using a1 a2 a3 a4 a5 a6 by blast
qed


text \<open>Termination: a turn marks a new position, or it pops a marked position and pushes
  nothing.\<close>

definition unmarked :: "context_t \<Rightarrow> bits \<Rightarrow> nat set" where
  "unmarked ctx reach = {pos. pos < 64 * bitset_size ctx \<and> \<not> get_bit reach pos}"

lemma finite_unmarked [simp]: "finite (unmarked ctx reach)"
  by (simp add: unmarked_def)

lemma reach_step_decreases:
  assumes wf: "wf_context ctx" and cw: "closed_walls ctx ws" and st: "inner ctx start"
    and inv: "reach_inv ctx ws start (reach, c # stack)"
  shows "((card (unmarked ctx (fst (reach_step ctx ws (reach, c # stack)))),
            length (snd (reach_step ctx ws (reach, c # stack)))),
           (card (unmarked ctx reach), length (c # stack)))
         \<in> less_than <*lex*> less_than"
proof -
  let ?N = "64 * bitset_size ctx"
  let ?r1 = "set_bit_bs reach c"
  from inv have len: "length reach = bitset_size ctx"
    and cR: "c \<in> reachable ctx ws start"
    and lifo: "\<forall>i<length (c # stack). get_bit reach ((c # stack) ! i) \<longrightarrow>
              (\<forall>d \<in> set (directions ctx).
                 get_bit ws (pos_add ((c # stack) ! i) d) \<or> get_bit reach (pos_add ((c # stack) ! i) d)
                 \<or> pos_add ((c # stack) ! i) d \<in> set (take i (c # stack)))"
    by (simp_all add: reach_inv_def)
  from cR have "inner ctx c" by (rule reachable_inner [OF wf cw st])
  then have cN: "c < ?N" by (rule inner_in_range [OF wf])
  with len have "c < 64 * length reach" by simp
  then have g1: "get_bit ?r1 q \<longleftrightarrow> q = c \<or> get_bit reach q" for q
    by (rule get_bit_set)
  show ?thesis
  proof (cases "get_bit reach c")
    case True
    with lifo have "\<forall>d \<in> set (directions ctx). get_bit ws (pos_add c d) \<or> get_bit reach (pos_add c d)"
      by fastforce
    then have "set (pushed ctx ws ?r1 c) = {}"
      by (auto simp add: set_pushed g1)
    then have p: "pushed ctx ws ?r1 c = []" by simp
    have "unmarked ctx ?r1 = unmarked ctx reach"
      using True by (auto simp add: unmarked_def g1)
    with p show ?thesis by (simp add: reach_step_eq)
  next
    case False
    have "unmarked ctx ?r1 = unmarked ctx reach - {c}"
      by (auto simp add: unmarked_def g1)
    moreover have "c \<in> unmarked ctx reach" using False cN by (simp add: unmarked_def)
    ultimately have "card (unmarked ctx ?r1) < card (unmarked ctx reach)"
      using card_Diff1_less [of "unmarked ctx reach" c] by simp
    then show ?thesis by (simp add: reach_step_eq)
  qed
qed

lemma reach_fill_terminates:
  assumes wf: "wf_context ctx" and cw: "closed_walls ctx ws" and st: "inner ctx start"
  shows "\<exists>reach. reach_fill ctx ws start = Some (reach, [])
           \<and> reach_inv ctx ws start (reach, [])"
proof -
  let ?b = "\<lambda>s. snd s \<noteq> ([]::nat list)"
  let ?c = "reach_step ctx ws"
  let ?P = "reach_inv ctx ws start"
  let ?m = "\<lambda>s. (card (unmarked ctx (fst s)), length (snd s))"
  have step: "?P (?c s)" if "?P s \<and> ?b s" for s
  proof -
    obtain reach stack where s: "s = (reach, stack)" by (cases s)
    with that obtain c stack' where "stack = c # stack'" by (cases stack) auto
    with that s show ?thesis using reach_inv_step [OF wf cw st] by simp
  qed
  have dec: "(?c s, s) \<in> inv_image (less_than <*lex*> less_than) ?m" if "?P s \<and> ?b s" for s
  proof -
    obtain reach stack where s: "s = (reach, stack)" by (cases s)
    with that obtain c stack' where e: "stack = c # stack'" by (cases stack) auto
    from that s e have P: "?P (reach, c # stack')" by simp
    from reach_step_decreases [OF wf cw st P] show ?thesis
      by (simp add: inv_image_def s e)
  qed
  have "{(t, s). (?P s \<and> ?b s) \<and> t = ?c s} \<subseteq> inv_image (less_than <*lex*> less_than) ?m"
    using dec by blast
  then have "wf {(t, s). (?P s \<and> ?b s) \<and> t = ?c s}"
    by (rule wf_subset [rotated]) (intro wf_inv_image wf_lex_prod wf_less_than)
  from wf_while_option_Some [OF this, of "(bitset_zeros (bitset_size ctx), [start])"]
    step reach_inv_init [OF wf st]
  obtain t where t: "while_option ?b ?c (bitset_zeros (bitset_size ctx), [start]) = Some t"
    by blast
  from while_option_stop [OF t] have "snd t = []" by simp
  moreover have "?P t"
    by (rule while_option_rule [where P = ?P, OF _ t]) (use step reach_inv_init [OF wf st] in auto)
  ultimately show ?thesis using t by (cases t) (auto simp add: reach_fill_def)
qed

lemma reach_inv_final:
  assumes wf: "wf_context ctx" and cw: "closed_walls ctx ws" and st: "inner ctx start"
    and inv: "reach_inv ctx ws start (reach, [])"
    and pos: "pos < 64 * bitset_size ctx"
  shows "get_bit reach pos \<longleftrightarrow> pos \<in> reachable ctx ws start"
proof
  assume "get_bit reach pos"
  with inv pos show "pos \<in> reachable ctx ws start" by (simp add: reach_inv_def)
next
  assume "pos \<in> reachable ctx ws start"
  then show "get_bit reach pos"
  proof (induction rule: reachable.induct)
    case start
    from inv show ?case by (simp add: reach_inv_def)
  next
    case (step a d)
    from step.hyps(1) have "inner ctx a" by (rule reachable_inner [OF wf cw st])
    then have "a < 64 * bitset_size ctx" by (rule inner_in_range [OF wf])
    with inv step show ?case by (auto simp add: reach_inv_def)
  qed
qed

section \<open>The parsed level\<close>

lemma tile_kinds:
  "tile_goal c \<Longrightarrow> \<not> tile_wall c" "tile_crate c \<Longrightarrow> \<not> tile_wall c"
  "tile_player c \<Longrightarrow> \<not> tile_wall c" "tile_player c \<Longrightarrow> \<not> tile_crate c"
  by (auto simp add: tile_goal_def tile_wall_def tile_crate_def tile_player_def)

lemma cell_position_inner:
  assumes "k < (width ctx - 2) * (height ctx - 2)" "area ctx = width ctx * height ctx"
  shows "inner ctx (cell_position ctx k)"
proof -
  let ?n = "width ctx - 2"
  have n: "0 < ?n" using assms(1) by (cases "?n = 0") simp_all
  have r: "k div ?n < height ctx - 2"
    using assms(1) n by (simp add: less_mult_imp_div_less mult.commute)
  have i: "k mod ?n < ?n" using n by simp
  have "(k div ?n + 2) * width ctx \<le> (height ctx - 1) * width ctx"
    using r by (intro mult_le_mono1) simp
  moreover have "k mod ?n + 2 < width ctx" using i by simp
  ultimately have "(k div ?n + 2) * width ctx + k mod ?n + 2 < (height ctx - 1) * width ctx + width ctx"
    by simp
  also have "\<dots> = height ctx * width ctx"
  proof -
    have "height ctx = Suc (height ctx - 1)" using r by simp
    then show ?thesis by (metis add.commute mult_Suc)
  qed
  finally have "cell_position ctx k + width ctx + 1 < area ctx"
    by (simp add: cell_position_def assms(2) mult.commute algebra_simps)
  moreover have "width ctx < cell_position ctx k"
    by (simp add: cell_position_def)
  ultimately show ?thesis by (simp add: inner_def)
qed

text \<open>What \<open>parsed\<close> says about the cell of the \<open>k\<close>-th tile and about every other
  position.\<close>

lemma parsed_cell:
  assumes p: "parsed ctx T player0 st K" and K: "K \<le> (width ctx - 2) * (height ctx - 2)"
    and wf: "wf_context ctx" and k: "k < K"
  shows "get_bit (ps_walls st) (cell_position ctx k) = tile_wall (T ! k)"
    and "get_bit (ps_goals st) (cell_position ctx k) = tile_goal (T ! k)"
    and "get_bit (ps_crates st) (cell_position ctx k) = tile_crate (T ! k)"
proof -
  let ?n = "width ctx - 2"
  from k K have kk: "k < ?n * (height ctx - 2)" by simp
  then have n: "0 < ?n" by (cases "?n = 0") simp_all
  from cell_position_less [OF kk] wf have r: "cell_position ctx k < 64 * bitset_size ctx"
    by (simp add: wf_context_def)
  have inj: "cell_position ctx k = cell_position ctx j \<longleftrightarrow> k = j" for j
    using cell_position_inj [OF n] by auto
  from p r show "get_bit (ps_walls st) (cell_position ctx k) = tile_wall (T ! k)"
    using k by (auto simp add: parsed_def inj)
  from p r show "get_bit (ps_goals st) (cell_position ctx k) = tile_goal (T ! k)"
    using k by (auto simp add: parsed_def inj)
  from p r show "get_bit (ps_crates st) (cell_position ctx k) = tile_crate (T ! k)"
    using k by (auto simp add: parsed_def inj)
qed

lemma parsed_elsewhere:
  assumes p: "parsed ctx T player0 st K" and pos: "pos < 64 * bitset_size ctx"
    and "pos \<notin> cell_position ctx ` {..<K}"
  shows "get_bit (ps_walls st) pos" and "\<not> get_bit (ps_goals st) pos"
    and "\<not> get_bit (ps_crates st) pos"
  using assms by (auto simp add: parsed_def)

lemma parsed_closed_walls:
  assumes p: "parsed ctx T player0 st K" and K: "K \<le> (width ctx - 2) * (height ctx - 2)"
    and wf: "wf_context ctx"
  shows "closed_walls ctx (ps_walls st)"
proof -
  have "inner ctx pos" if "pos < 64 * bitset_size ctx" "\<not> get_bit (ps_walls st) pos" for pos
  proof -
    from p that obtain j where j: "j < K" "pos = cell_position ctx j"
      by (auto simp add: parsed_def)
    with K wf show ?thesis by (auto intro!: cell_position_inner simp add: wf_context_def)
  qed
  with p show ?thesis by (simp add: closed_walls_def parsed_def)
qed

lemma parsed_not_wall:
  assumes p: "parsed ctx T player0 st K" and K: "K \<le> (width ctx - 2) * (height ctx - 2)"
    and wf: "wf_context ctx" and pos: "pos < 64 * bitset_size ctx"
  shows "get_bit (ps_goals st) pos \<Longrightarrow> \<not> get_bit (ps_walls st) pos"
    and "get_bit (ps_crates st) pos \<Longrightarrow> \<not> get_bit (ps_walls st) pos"
proof -
  assume "get_bit (ps_goals st) pos"
  with p pos obtain j where j: "j < K" "pos = cell_position ctx j" "tile_goal (T ! j)"
    by (auto simp add: parsed_def)
  with parsed_cell(1) [OF p K wf j(1)] show "\<not> get_bit (ps_walls st) pos"
    by (simp add: tile_kinds)
next
  assume "get_bit (ps_crates st) pos"
  with p pos obtain j where j: "j < K" "pos = cell_position ctx j" "tile_crate (T ! j)"
    by (auto simp add: parsed_def)
  with parsed_cell(1) [OF p K wf j(1)] show "\<not> get_bit (ps_walls st) pos"
    by (simp add: tile_kinds)
qed

text \<open>The player is at the cell of the last player tile.\<close>

lemma player_after_cases:
  "(\<forall>j<k. \<not> tile_player (T ! j)) \<and> player_after ctx player0 T k = player0
   \<or> (\<exists>j<k. tile_player (T ! j) \<and> player_after ctx player0 T k = cell_position ctx j)"
proof (induction k)
  case 0
  then show ?case by (simp add: player_after_def)
next
  case (Suc k)
  then show ?case
    by (cases "tile_player (T ! k)") (auto simp add: player_after_Suc less_Suc_eq)
qed

lemma filter_empty_iff_nth: "length (filter P (take k T)) = 0 \<longleftrightarrow> (\<forall>j<k. j < length T \<longrightarrow> \<not> P (T ! j))"
proof -
  have "set (take k T) = {T ! j |j. j < k \<and> j < length T}"
  proof (intro set_eqI iffI)
    fix x assume "x \<in> set (take k T)"
    then obtain i where "i < length (take k T)" "take k T ! i = x"
      by (auto simp add: in_set_conv_nth)
    then show "x \<in> {T ! j |j. j < k \<and> j < length T}" by auto
  next
    fix x assume "x \<in> {T ! j |j. j < k \<and> j < length T}"
    then obtain j where j: "j < k" "j < length T" "x = T ! j" by auto
    then have "j < length (take k T)" "take k T ! j = x" by simp_all
    then show "x \<in> set (take k T)" by (metis nth_mem)
  qed
  then show ?thesis by (auto simp add: filter_empty_conv)
qed

lemma parsed_player:
  assumes p: "parsed ctx T player0 st K" and K: "K \<le> (width ctx - 2) * (height ctx - 2)"
    and wf: "wf_context ctx" and c: "0 < length (filter tile_player (take K T))"
  shows "\<exists>j<K. tile_player (T ! j) \<and> ps_player st = cell_position ctx j"
proof -
  from p have KT: "K \<le> length T" and pl: "ps_player st = player_after ctx player0 T K"
    by (simp_all add: parsed_def)
  from c have "\<not> (\<forall>j<K. \<not> tile_player (T ! j))"
    using filter_empty_iff_nth [of tile_player K T] by auto
  with player_after_cases [of K T ctx player0] pl show ?thesis by auto
qed

section \<open>Evaluating the model on a concrete level\<close>

text \<open>Unfolding rules for the recursions on a loop count, for numerals.\<close>

lemma suffix_row_unfold:
  "0 < n \<Longrightarrow> suffix_row n st =
     (case suffix_cell st (ps_rest st) of None \<Rightarrow> (True, st) | Some st' \<Rightarrow> suffix_row (n - 1) st')"
  by (cases n) (auto split: option.splits)

lemma suffix_rows_unfold:
  "0 < n \<Longrightarrow> suffix_rows ctx n st =
     (case suffix_row (width ctx - 2) st of
        (True, st') \<Rightarrow> st'
      | (False, st') \<Rightarrow>
          suffix_rows ctx (n - 1) (st'\<lparr> ps_position := (ps_position st' + 2) mod 65536 \<rparr>))"
  by (cases n) (auto split: prod.splits bool.splits)

lemma scan_row_2x2_unfold:
  "0 < n \<Longrightarrow> scan_row_2x2 ctx p n position =
     (if window_unsafe p position (neighborhood ctx) 0 \<noteq> 0 then (True, position)
      else scan_row_2x2 ctx p (n - 1) ((position + 1) mod 65536))"
  by (cases n) auto

lemma scan_rows_2x2_unfold:
  "0 < n \<Longrightarrow> scan_rows_2x2 ctx p n position =
     (case scan_row_2x2 ctx p (nat ((int (width ctx) - 1) mod 65536)) position of
        (True, position') \<Rightarrow> True
      | (False, position') \<Rightarrow> scan_rows_2x2 ctx p (n - 1) ((position' + 1) mod 65536))"
  by (cases n) (auto split: prod.splits bool.splits)

lemma backtrack_unfold:
  "0 < n \<Longrightarrow> backtrack cache (Some i) n =
     map_option (\<lambda>acts. acts @ [action (cache ! i)]) (backtrack cache (parent (cache ! i)) (n - 1))"
  by (cases n) auto

lemma foldl_upt_4: "foldl f s [0..<4] = f (f (f (f s 0) 1) 2) 3"
proof -
  have "[0..<4] = [0, 1, 2, 3]" by (simp add: upt_rec)
  then show ?thesis by simp
qed

lemmas parse_eval =
  suffix_tiles_def suffix_row_unfold suffix_rows_unfold place_tile_def inc16_def
  clear_bit_def set_bit_bs_def bitset_ones_def bitset_zeros_def

text \<open>The level \<open>A10\<close> on a 3 by 1 board: the player, a crate and a goal in a row.\<close>

definition ctx_row3 :: context_t where
  "ctx_row3 = create_context 3 1 10"

definition allocate_problem :: "context_t \<Rightarrow> problem_t" where
  "allocate_problem ctx =
     \<lparr> goal_count = 0, player = 0,
       walls = bitset_zeros (bitset_size ctx), goals = bitset_zeros (bitset_size ctx),
       crates = bitset_zeros (bitset_size ctx), deadlocks = bitset_zeros (bitset_size ctx),
       heuristics = replicate (area ctx) 0,
       compilable = False, potentially_solvable = False \<rparr>"

lemma ctx_row3_eq:
  "ctx_row3 = \<lparr> width = 5, height = 3, area = 15, bitset_size = 1, bitset_stride = 8,
                state_count = 11 \<rparr>"
  by (simp add: ctx_row3_def create_context_def)

lemma suffix_tiles_row3:
  "suffix_tiles ctx_row3 (allocate_problem ctx_row3) ''A10'' =
     \<lparr> ps_walls = [- 449], ps_goals = [256], ps_crates = [128], ps_player = 6,
       ps_position = 11, ps_goal_count = 1, ps_crate_count = 1,
       ps_player_count = 1, ps_rest = [] \<rparr>"
  by (simp add: ctx_row3_eq allocate_problem_def parse_eval)

lemma closed_walls_row3: "closed_walls ctx_row3 [- 449]"
proof -
  have wf: "wf_context ctx_row3" unfolding ctx_row3_def by (rule wf_create_context)
  have "length (level_tiles ctx_row3 ''A10'') \<le> (width ctx_row3 - 2) * (height ctx_row3 - 2)"
    by (simp add: level_tiles_def)
  from parsed_closed_walls [OF suffix_tiles_parsed [OF wf, of "''A10''" "allocate_problem ctx_row3"] this wf]
  show ?thesis by (simp add: suffix_tiles_row3)
qed

text \<open>The flood fill stops, so \<open>check_reachability\<close> returns.\<close>

lemma check_reachability_returns:
  assumes "wf_context ctx" and "closed_walls ctx ws"
    and "\<not> get_bit ws start" and "start < 64 * bitset_size ctx"
  shows "\<exists>v. check_reachability ctx cr gl ws start = Some v"
proof -
  from assms have st: "inner ctx start" by (simp add: closed_walls_def)
  from reach_fill_terminates [OF assms(1,2) st]
  obtain reach where "reach_fill ctx ws start = Some (reach, [])" by blast
  then show ?thesis by (simp add: check_reachability_def)
qed

section \<open>Termination of generate\_deadlock\_map\<close>

text \<open>
  Every entry of the queue is an inner cell, and each enqueue lowers the potential of its
  cell: the deadlock bit (weighing more than any cst) is cleared, or the stored cst
  drops.
\<close>

definition dl_wf :: "context_t \<Rightarrow> dl_state \<Rightarrow> bool" where
  "dl_wf ctx s \<longleftrightarrow>
     length (dl_deadlocks s) = bitset_size ctx \<and> length (dl_heuristics s) = area ctx
     \<and> (\<forall>x \<in> set (dl_queue s). inner ctx x)"

definition dl_potential :: "context_t \<Rightarrow> bits \<Rightarrow> nat list \<Rightarrow> nat" where
  "dl_potential ctx dl hs =
     (\<Sum>c<area ctx. hs ! c + (if get_bit dl c then 65536 else 0))"

lemma sum_lower_one:
  fixes f g :: "nat \<Rightarrow> nat"
  assumes "i < n" "g i < f i" "\<And>c. c \<noteq> i \<Longrightarrow> g c = f c"
  shows "sum g {..<n} < sum f {..<n}"
proof (rule sum_strict_mono_ex1)
  show "finite {..<n}" by simp
  show "\<forall>x\<in>{..<n}. g x \<le> f x" using assms by (metis less_imp_le_nat order_refl)
  show "\<exists>a\<in>{..<n}. g a < f a" using assms by auto
qed

lemma dl_relax_cases:
  assumes wf: "wf_context ctx" and cw: "closed_walls ctx ws" and s: "dl_wf ctx s"
    and cur: "inner ctx current" and d: "d \<in> set (directions ctx)" and cst: "cst < 65536"
  shows "dl_relax ws current cst s d = s
       \<or> (dl_wf ctx (dl_relax ws current cst s d)
          \<and> dl_front (dl_relax ws current cst s d) = dl_front s
          \<and> dl_queue (dl_relax ws current cst s d) = dl_queue s @ [pos_add current d]
          \<and> dl_potential ctx (dl_deadlocks (dl_relax ws current cst s d))
               (dl_heuristics (dl_relax ws current cst s d))
             < dl_potential ctx (dl_deadlocks s) (dl_heuristics s))"
proof (cases "dl_relax ws current cst s d = s")
  case True
  then show ?thesis by simp
next
  case False
  let ?n = "pos_add current d"
  let ?s' = "s\<lparr> dl_queue := dl_queue s @ [?n],
                 dl_deadlocks := clear_bit (dl_deadlocks s) ?n,
                 dl_heuristics := (dl_heuristics s)[?n := cst] \<rparr>"
  from False have nw: "\<not> get_bit ws ?n"
    and upd: "get_bit (dl_deadlocks s) ?n \<or> cst < dl_heuristics s ! ?n"
    and e: "dl_relax ws current cst s d = ?s'"
    by (auto simp add: dl_relax_def Let_def split: if_splits)
  have ni: "inner ctx ?n" using wf cw cur d nw by (rule closed_walls_step)
  then have na: "?n < area ctx" by (simp add: inner_def)
  from s have len: "length (dl_deadlocks s) = bitset_size ctx" "length (dl_heuristics s) = area ctx"
    by (simp_all add: dl_wf_def)
  have nN: "?n < 64 * length (dl_deadlocks s)" using inner_in_range [OF wf ni] len by simp
  have w': "dl_wf ctx ?s'" using s ni by (simp add: dl_wf_def)
  let ?f = "\<lambda>c. dl_heuristics s ! c + (if get_bit (dl_deadlocks s) c then 65536 else 0)"
  let ?g = "\<lambda>c. (dl_heuristics s)[?n := cst] ! c
                + (if get_bit (clear_bit (dl_deadlocks s) ?n) c then 65536 else 0)"
  have "sum ?g {..<area ctx} < sum ?f {..<area ctx}"
  proof (rule sum_lower_one [OF na])
    show "?g ?n < ?f ?n"
      using upd cst na len by (auto simp add: get_bit_clear [OF nN])
    show "?g c = ?f c" if "c \<noteq> ?n" for c
      using that by (simp add: get_bit_clear [OF nN])
  qed
  then have "dl_potential ctx (dl_deadlocks ?s') (dl_heuristics ?s')
             < dl_potential ctx (dl_deadlocks s) (dl_heuristics s)"
    by (simp add: dl_potential_def)
  with w' e show ?thesis by simp
qed

text \<open>The four relaxations of one turn: the state stays well-formed, the queue only grows
  and the potential does not rise; it falls if the queue grew.\<close>

definition dl_le :: "context_t \<Rightarrow> dl_state \<Rightarrow> dl_state \<Rightarrow> bool" where
  "dl_le ctx s' s \<longleftrightarrow>
     dl_wf ctx s' \<and> dl_front s' = dl_front s
     \<and> (\<exists>new. dl_queue s' = dl_queue s @ new
           \<and> (if new = [] then dl_potential ctx (dl_deadlocks s') (dl_heuristics s')
                               = dl_potential ctx (dl_deadlocks s) (dl_heuristics s)
               else dl_potential ctx (dl_deadlocks s') (dl_heuristics s')
                    < dl_potential ctx (dl_deadlocks s) (dl_heuristics s)))"

lemma dl_le_refl: "dl_wf ctx s \<Longrightarrow> dl_le ctx s s"
  by (simp add: dl_le_def)

lemma dl_le_trans:
  assumes "dl_le ctx s2 s1" "dl_le ctx s1 s0"
  shows "dl_le ctx s2 s0"
proof -
  let ?pot = "\<lambda>s. dl_potential ctx (dl_deadlocks s) (dl_heuristics s)"
  from assms(1) obtain n2 where 2: "dl_wf ctx s2" "dl_front s2 = dl_front s1"
    "dl_queue s2 = dl_queue s1 @ n2" "if n2 = [] then ?pot s2 = ?pot s1 else ?pot s2 < ?pot s1"
    unfolding dl_le_def by blast
  from assms(2) obtain n1 where 1: "dl_front s1 = dl_front s0"
    "dl_queue s1 = dl_queue s0 @ n1" "if n1 = [] then ?pot s1 = ?pot s0 else ?pot s1 < ?pot s0"
    unfolding dl_le_def by blast
  have q: "dl_queue s2 = dl_queue s0 @ (n1 @ n2)" using 1(2) 2(3) by simp
  have "if n1 @ n2 = [] then ?pot s2 = ?pot s0 else ?pot s2 < ?pot s0"
    using 1(3) 2(4) by (cases "n1 = []"; cases "n2 = []") simp_all
  with q 1(1) 2(1,2) show ?thesis unfolding dl_le_def by (intro conjI exI [of _ "n1 @ n2"]) simp_all
qed

lemma dl_relax_le:
  assumes "wf_context ctx" "closed_walls ctx ws" "dl_wf ctx s" "inner ctx current"
    "d \<in> set (directions ctx)" "cst < 65536"
  shows "dl_le ctx (dl_relax ws current cst s d) s"
proof (cases "dl_relax ws current cst s d = s")
  case True
  with assms(3) show ?thesis by (simp add: dl_le_refl)
next
  case False
  with dl_relax_cases [OF assms] show ?thesis
    unfolding dl_le_def by (intro conjI exI [of _ "[pos_add current d]"]) simp_all
qed

lemma dl_fold_le:
  assumes wf: "wf_context ctx" and cw: "closed_walls ctx ws" and cur: "inner ctx current"
    and cst: "cst < 65536"
  shows "dl_wf ctx s \<Longrightarrow> set ds \<subseteq> set (directions ctx)
         \<Longrightarrow> dl_le ctx (foldl (dl_relax ws current cst) s ds) s"
proof (induction ds arbitrary: s)
  case Nil
  then show ?case by (simp add: dl_le_refl)
next
  case (Cons d ds)
  from Cons.prems have d: "d \<in> set (directions ctx)" and ds: "set ds \<subseteq> set (directions ctx)"
    by simp_all
  have 1: "dl_le ctx (dl_relax ws current cst s d) s"
    using wf cw Cons.prems(1) cur d cst by (rule dl_relax_le)
  then have "dl_wf ctx (dl_relax ws current cst s d)" by (simp add: dl_le_def)
  from Cons.IH [OF this ds] 1 show ?case by (auto intro: dl_le_trans)
qed


lemma directions_subset: "set (directions ctx) \<subseteq> set (directions ctx)"
  by simp

lemma dl_step_le:
  assumes wf: "wf_context ctx" and cw: "closed_walls ctx ws" and s: "dl_wf ctx s"
    and f: "dl_front s < length (dl_queue s)"
  shows "dl_le ctx (dl_step ctx ws s) (s\<lparr> dl_front := dl_front s + 1 \<rparr>)"
proof -
  let ?cur = "dl_queue s ! dl_front s"
  let ?cst = "(dl_heuristics s ! ?cur + 1) mod 65536"
  from s f have cur: "inner ctx ?cur" by (simp add: dl_wf_def)
  have c: "?cst < 65536" by simp
  have s1: "dl_wf ctx (s\<lparr> dl_front := dl_front s + 1 \<rparr>)" using s by (simp add: dl_wf_def)
  from dl_fold_le [OF wf cw cur c s1 directions_subset]
  show ?thesis by (simp add: dl_step_def Let_def)
qed

definition dl_measure :: "context_t \<Rightarrow> dl_state \<Rightarrow> nat \<times> nat" where
  "dl_measure ctx s =
     (dl_potential ctx (dl_deadlocks s) (dl_heuristics s), length (dl_queue s) - dl_front s)"

lemma dl_step_decreases:
  assumes wf: "wf_context ctx" and cw: "closed_walls ctx ws" and s: "dl_wf ctx s"
    and f: "dl_front s < length (dl_queue s)"
  shows "(dl_measure ctx (dl_step ctx ws s), dl_measure ctx s) \<in> less_than <*lex*> less_than"
proof -
  let ?pot = "\<lambda>s. dl_potential ctx (dl_deadlocks s) (dl_heuristics s)"
  let ?s' = "dl_step ctx ws s"
  from dl_step_le [OF assms] have "\<exists>new. dl_front ?s' = dl_front s + 1
    \<and> dl_queue ?s' = dl_queue s @ new
    \<and> (if new = [] then ?pot ?s' = ?pot s else ?pot ?s' < ?pot s)"
    unfolding dl_le_def by (simp cong: if_cong)
  then obtain new where n: "dl_front ?s' = dl_front s + 1"
    "dl_queue ?s' = dl_queue s @ new"
    "if new = [] then ?pot ?s' = ?pot s else ?pot ?s' < ?pot s"
    by blast
  show ?thesis
  proof (cases "new = []")
    case True
    with n f show ?thesis by (simp add: dl_measure_def)
  next
    case False
    with n show ?thesis by (simp add: dl_measure_def)
  qed
qed

lemma dl_pass_terminates:
  assumes wf: "wf_context ctx" and cw: "closed_walls ctx ws" and s: "dl_wf ctx s"
  shows "\<exists>t. while_option (\<lambda>s. dl_front s < length (dl_queue s)) (dl_step ctx ws) s = Some t
             \<and> dl_wf ctx t"
proof -
  let ?b = "\<lambda>s. dl_front s < length (dl_queue s)"
  let ?c = "dl_step ctx ws"
  let ?P = "dl_wf ctx"
  have step: "?P (?c s)" if "?P s \<and> ?b s" for s
    using dl_step_le [OF wf cw, of s] that by (simp add: dl_le_def)
  have dec: "(?c s, s) \<in> inv_image (less_than <*lex*> less_than) (dl_measure ctx)"
    if "?P s \<and> ?b s" for s
    using dl_step_decreases [OF wf cw, of s] that by (simp add: inv_image_def)
  have "{(t, s). (?P s \<and> ?b s) \<and> t = ?c s} \<subseteq> inv_image (less_than <*lex*> less_than) (dl_measure ctx)"
    using dec by blast
  then have "wf {(t, s). (?P s \<and> ?b s) \<and> t = ?c s}"
    by (rule wf_subset [rotated]) (intro wf_inv_image wf_lex_prod wf_less_than)
  from wf_while_option_Some [OF this, of s] step s
  obtain t where t: "while_option ?b ?c s = Some t" by blast
  have "?P t"
    by (rule while_option_rule [where P = ?P, OF _ t]) (use step s in auto)
  with t show ?thesis by blast
qed

text \<open>The goals of a well-formed problem lie on cells that are not walls.\<close>

definition goals_off_walls :: "context_t \<Rightarrow> problem_t \<Rightarrow> bool" where
  "goals_off_walls ctx p \<longleftrightarrow>
     (\<forall>pos<64 * bitset_size ctx. get_bit (goals p) pos \<longrightarrow> \<not> get_bit (walls p) pos)"

lemma goal_inner:
  assumes "wf_context ctx" "closed_walls ctx (walls p)" "goals_off_walls ctx p"
    "position < area ctx" "get_bit (goals p) position"
  shows "inner ctx position"
proof -
  from assms(1,4) have "position < 64 * bitset_size ctx" by (simp add: wf_context_def)
  with assms show ?thesis by (simp add: goals_off_walls_def closed_walls_def)
qed

lemma dl_goal_terminates:
  assumes wf: "wf_context ctx" and cw: "closed_walls ctx (walls p)" and g: "goals_off_walls ctx p"
    and m: "length (fst m) = bitset_size ctx" "length (snd m) = area ctx"
    and pos: "position < area ctx"
  shows "\<exists>m'. dl_goal ctx p m position = Some m'
           \<and> length (fst m') = bitset_size ctx \<and> length (snd m') = area ctx"
proof (cases "get_bit (goals p) position")
  case False
  with m show ?thesis by (simp add: dl_goal_def)
next
  case True
  let ?s = "\<lparr> dl_deadlocks = clear_bit (fst m) position,
               dl_heuristics = (snd m)[position := 0],
               dl_queue = [position],
               dl_front = 0 \<rparr>"
  have "inner ctx position" using wf cw g pos True by (rule goal_inner)
  with m have "dl_wf ctx ?s" by (simp add: dl_wf_def)
  from dl_pass_terminates [OF wf cw this] obtain t
    where "while_option (\<lambda>s. dl_front s < length (dl_queue s)) (dl_step ctx (walls p)) ?s = Some t"
      and "dl_wf ctx t" by blast
  with True show ?thesis by (simp add: dl_goal_def dl_wf_def)
qed

lemma dl_goals_terminates:
  assumes wf: "wf_context ctx" and cw: "closed_walls ctx (walls p)" and g: "goals_off_walls ctx p"
  shows "length (fst m) = bitset_size ctx \<Longrightarrow> length (snd m) = area ctx
     \<Longrightarrow> \<forall>position \<in> set positions. position < area ctx
     \<Longrightarrow> \<exists>m'. dl_goals ctx p positions m = Some m'
           \<and> length (fst m') = bitset_size ctx \<and> length (snd m') = area ctx"
proof (induction positions arbitrary: m)
  case Nil
  then show ?case by simp
next
  case (Cons position positions)
  from Cons.prems have "position < area ctx" by simp
  from dl_goal_terminates [OF wf cw g Cons.prems(1,2) this] obtain m1
    where 1: "dl_goal ctx p m position = Some m1" "length (fst m1) = bitset_size ctx"
      "length (snd m1) = area ctx" by blast
  from Cons.prems(3) have "\<forall>position \<in> set positions. position < area ctx" by simp
  from Cons.IH [OF 1(2,3) this] 1(1) show ?case by simp
qed

lemma generate_deadlock_map_terminates:
  assumes "wf_context ctx" "closed_walls ctx (walls p)" "goals_off_walls ctx p"
  shows "\<exists>m. generate_deadlock_map ctx p
                = Some (p\<lparr> deadlocks := fst m, heuristics := snd m \<rparr>)
            \<and> length (fst m) = bitset_size ctx \<and> length (snd m) = area ctx"
proof -
  let ?m0 = "(bitset_ones (bitset_size ctx), replicate (area ctx) (area ctx))"
  have "\<exists>m'. dl_goals ctx p [0..<area ctx] ?m0 = Some m'
           \<and> length (fst m') = bitset_size ctx \<and> length (snd m') = area ctx"
    by (rule dl_goals_terminates [OF assms]) simp_all
  then show ?thesis by (auto simp add: generate_deadlock_map_def)
qed

section \<open>The result of parse\_problem\<close>

lemma window_unsafe_fields:
  assumes "walls p = walls q" "goals p = goals q" "crates p = crates q"
  shows "window_unsafe p position offsets unsafe = window_unsafe q position offsets unsafe"
  using assms by (induction offsets arbitrary: unsafe) (simp_all add: Let_def)

lemma scan_row_2x2_fields:
  assumes "walls p = walls q" "goals p = goals q" "crates p = crates q"
  shows "scan_row_2x2 ctx p n position = scan_row_2x2 ctx q n position"
  using assms
  by (induction n arbitrary: position) (simp_all add: window_unsafe_fields [of p q])

lemma scan_rows_2x2_fields:
  assumes "walls p = walls q" "goals p = goals q" "crates p = crates q"
  shows "scan_rows_2x2 ctx p n position = scan_rows_2x2 ctx q n position"
  using assms
  by (induction n arbitrary: position)
     (simp_all add: scan_row_2x2_fields [of p q] cong: prod.case_cong bool.case_cong)

lemma check_all_2x2_deadlock_fields:
  assumes "walls p = walls q" "goals p = goals q" "crates p = crates q"
  shows "check_all_2x2_deadlock ctx p = check_all_2x2_deadlock ctx q"
  using assms by (simp add: check_all_2x2_deadlock_def scan_rows_2x2_fields [of p q])

lemma cells_small:
  assumes "wf_context ctx"
  shows "(width ctx - 2) * (height ctx - 2) < 65536"
proof -
  from assms have "width ctx - 2 < 256" "height ctx - 2 < 256" by (auto simp add: wf_context_def)
  then show ?thesis by (rule small_product)
qed

lemma level_tiles_take:
  "take (length (level_tiles ctx level_str)) (string_tiles level_str) = level_tiles ctx level_str"
  by (simp add: level_tiles_def min_def)

lemma level_tiles_nth:
  "k < length (level_tiles ctx level_str) \<Longrightarrow> string_tiles level_str ! k = level_tiles ctx level_str ! k"
  by (simp add: level_tiles_def)

lemma length_level_tiles_le:
  "length (level_tiles ctx level_str) \<le> (width ctx - 2) * (height ctx - 2)"
  by (simp add: level_tiles_def)

text \<open>The counters of the parser are the numbers of tiles of each kind: they do not wrap.\<close>

lemma suffix_tiles_counts:
  assumes wf: "wf_context ctx"
  shows "ps_goal_count (suffix_tiles ctx p level_str)
           = length (filter tile_goal (level_tiles ctx level_str))"
    and "ps_crate_count (suffix_tiles ctx p level_str)
           = length (filter tile_crate (level_tiles ctx level_str))"
    and "ps_player_count (suffix_tiles ctx p level_str)
           = length (filter tile_player (level_tiles ctx level_str))"
proof -
  let ?LT = "level_tiles ctx level_str"
  have small: "length (filter P ?LT) < 65536" for P
  proof -
    have "length (filter P ?LT) \<le> length ?LT" by simp
    also have "\<dots> \<le> (width ctx - 2) * (height ctx - 2)" by (rule length_level_tiles_le)
    also have "\<dots> < 65536" using wf by (rule cells_small)
    finally show ?thesis .
  qed
  from suffix_tiles_parsed [OF wf, of level_str p]
  have "ps_goal_count (suffix_tiles ctx p level_str) = length (filter tile_goal ?LT) mod 65536"
    "ps_crate_count (suffix_tiles ctx p level_str) = length (filter tile_crate ?LT) mod 65536"
    "ps_player_count (suffix_tiles ctx p level_str) = length (filter tile_player ?LT) mod 65536"
    by (simp_all add: parsed_def level_tiles_take)
  with small show "ps_goal_count (suffix_tiles ctx p level_str) = length (filter tile_goal ?LT)"
    "ps_crate_count (suffix_tiles ctx p level_str) = length (filter tile_crate ?LT)"
    "ps_player_count (suffix_tiles ctx p level_str) = length (filter tile_player ?LT)"
    by simp_all
qed

text \<open>The bits of the parsed level, cell by cell.\<close>

lemma suffix_tiles_cell:
  assumes wf: "wf_context ctx" and k: "k < length (level_tiles ctx level_str)"
  shows "get_bit (ps_walls (suffix_tiles ctx p level_str)) (cell_position ctx k)
           = tile_wall (level_tiles ctx level_str ! k)"
    and "get_bit (ps_goals (suffix_tiles ctx p level_str)) (cell_position ctx k)
           = tile_goal (level_tiles ctx level_str ! k)"
    and "get_bit (ps_crates (suffix_tiles ctx p level_str)) (cell_position ctx k)
           = tile_crate (level_tiles ctx level_str ! k)"
  using parsed_cell [OF suffix_tiles_parsed [OF wf, of level_str p] length_level_tiles_le wf k]
  by (simp_all add: level_tiles_nth [OF k])

lemma suffix_tiles_elsewhere:
  assumes wf: "wf_context ctx" and pos: "pos < 64 * bitset_size ctx"
    and "pos \<notin> cell_position ctx ` {..<length (level_tiles ctx level_str)}"
  shows "get_bit (ps_walls (suffix_tiles ctx p level_str)) pos"
    and "\<not> get_bit (ps_goals (suffix_tiles ctx p level_str)) pos"
    and "\<not> get_bit (ps_crates (suffix_tiles ctx p level_str)) pos"
  using parsed_elsewhere [OF suffix_tiles_parsed [OF wf, of level_str p] pos assms(3)]
  by simp_all

lemma suffix_tiles_lengths:
  assumes wf: "wf_context ctx"
  shows "length (ps_walls (suffix_tiles ctx p level_str)) = bitset_size ctx"
    and "length (ps_goals (suffix_tiles ctx p level_str)) = bitset_size ctx"
    and "length (ps_crates (suffix_tiles ctx p level_str)) = bitset_size ctx"
  using suffix_tiles_parsed [OF wf, of level_str p] by (simp_all add: parsed_def)

lemma suffix_tiles_closed_walls:
  assumes wf: "wf_context ctx"
  shows "closed_walls ctx (ps_walls (suffix_tiles ctx p level_str))"
  using parsed_closed_walls [OF suffix_tiles_parsed [OF wf] length_level_tiles_le wf] .

lemma suffix_tiles_not_wall:
  assumes wf: "wf_context ctx" and pos: "pos < 64 * bitset_size ctx"
  shows "get_bit (ps_goals (suffix_tiles ctx p level_str)) pos
           \<Longrightarrow> \<not> get_bit (ps_walls (suffix_tiles ctx p level_str)) pos"
    and "get_bit (ps_crates (suffix_tiles ctx p level_str)) pos
           \<Longrightarrow> \<not> get_bit (ps_walls (suffix_tiles ctx p level_str)) pos"
  using parsed_not_wall [OF suffix_tiles_parsed [OF wf] length_level_tiles_le wf pos] by blast+

lemma suffix_tiles_player:
  assumes wf: "wf_context ctx" and one: "ps_player_count (suffix_tiles ctx p level_str) = 1"
  shows "\<exists>k<length (level_tiles ctx level_str). tile_player (level_tiles ctx level_str ! k)
           \<and> ps_player (suffix_tiles ctx p level_str) = cell_position ctx k"
proof -
  from one suffix_tiles_counts(3) [OF wf, of p level_str]
  have "0 < length (filter tile_player (take (length (level_tiles ctx level_str)) (string_tiles level_str)))"
    by (simp add: level_tiles_take)
  from parsed_player [OF suffix_tiles_parsed [OF wf, of level_str p] length_level_tiles_le wf this]
  obtain j where "j < length (level_tiles ctx level_str)" "tile_player (string_tiles level_str ! j)"
    "ps_player (suffix_tiles ctx p level_str) = cell_position ctx j" by blast
  then show ?thesis by (intro exI [of _ j]) (simp add: level_tiles_nth)
qed

lemma suffix_tiles_player_inner:
  assumes wf: "wf_context ctx" and one: "ps_player_count (suffix_tiles ctx p level_str) = 1"
  shows "inner ctx (ps_player (suffix_tiles ctx p level_str))"
    and "\<not> get_bit (ps_walls (suffix_tiles ctx p level_str)) (ps_player (suffix_tiles ctx p level_str))"
    and "\<not> get_bit (ps_crates (suffix_tiles ctx p level_str)) (ps_player (suffix_tiles ctx p level_str))"
proof -
  from suffix_tiles_player [OF assms] obtain k where k: "k < length (level_tiles ctx level_str)"
    "tile_player (level_tiles ctx level_str ! k)"
    "ps_player (suffix_tiles ctx p level_str) = cell_position ctx k" by blast
  from k(1) length_level_tiles_le [of ctx level_str]
  have "k < (width ctx - 2) * (height ctx - 2)" by simp
  with wf show "inner ctx (ps_player (suffix_tiles ctx p level_str))"
    by (simp add: k(3) cell_position_inner wf_context_def)
  from suffix_tiles_cell [OF wf k(1), of p] k(2,3)
  show "\<not> get_bit (ps_walls (suffix_tiles ctx p level_str)) (ps_player (suffix_tiles ctx p level_str))"
    "\<not> get_bit (ps_crates (suffix_tiles ctx p level_str)) (ps_player (suffix_tiles ctx p level_str))"
    by (simp_all add: tile_kinds)
qed

lemma dl_goal_fields:
  assumes "walls p = walls q" "goals p = goals q"
  shows "dl_goal ctx p m position = dl_goal ctx q m position"
  using assms by (simp add: dl_goal_def)

lemma dl_goals_fields:
  assumes "walls p = walls q" "goals p = goals q"
  shows "dl_goals ctx p positions m = dl_goals ctx q positions m"
  using assms
  by (induction positions arbitrary: m) (simp_all add: dl_goal_fields [of p q] cong: option.case_cong)

text \<open>The two maps \<open>generate_deadlock_map\<close> computes, as a function of the walls and the
  goals alone.\<close>

definition deadlock_maps :: "context_t \<Rightarrow> problem_t \<Rightarrow> (bits \<times> nat list) option" where
  "deadlock_maps ctx p =
     dl_goals ctx p [0..<area ctx] (bitset_ones (bitset_size ctx), replicate (area ctx) (area ctx))"

lemma generate_deadlock_map_maps:
  "generate_deadlock_map ctx p
     = map_option (\<lambda>m. p\<lparr> deadlocks := fst m, heuristics := snd m \<rparr>) (deadlock_maps ctx p)"
  by (simp add: generate_deadlock_map_def deadlock_maps_def)

lemma deadlock_maps_fields:
  "walls p = walls q \<Longrightarrow> goals p = goals q \<Longrightarrow> deadlock_maps ctx p = deadlock_maps ctx q"
  by (simp add: deadlock_maps_def dl_goals_fields [of p q])

lemma deadlock_maps_terminates:
  assumes "wf_context ctx" "closed_walls ctx (walls p)" "goals_off_walls ctx p"
  shows "\<exists>m. deadlock_maps ctx p = Some m
            \<and> length (fst m) = bitset_size ctx \<and> length (snd m) = area ctx"
  unfolding deadlock_maps_def by (rule dl_goals_terminates [OF assms]) simp_all

text \<open>A well-formed problem: closed walls, goals and crates off the walls, the player on
  an inner cell that holds neither a wall nor a crate.\<close>

definition wf_problem :: "context_t \<Rightarrow> problem_t \<Rightarrow> bool" where
  "wf_problem ctx p \<longleftrightarrow>
     closed_walls ctx (walls p)
     \<and> length (goals p) = bitset_size ctx \<and> length (crates p) = bitset_size ctx
     \<and> goals_off_walls ctx p
     \<and> (\<forall>pos<64 * bitset_size ctx. get_bit (crates p) pos \<longrightarrow> \<not> get_bit (walls p) pos)
     \<and> inner ctx (player p)
     \<and> \<not> get_bit (walls p) (player p) \<and> \<not> get_bit (crates p) (player p)"

lemma suffix_problem_unfold:
  assumes "st = suffix_tiles ctx p level_str"
    and "p1 = p\<lparr> walls := ps_walls st, goals := ps_goals st, crates := ps_crates st,
                  player := ps_player st, goal_count := ps_goal_count st \<rparr>"
    and "valid = (ps_player_count st = 1 \<and> ps_goal_count st = ps_crate_count st
                   \<and> \<not> bitset_equals (crates p1) (goals p1) (bitset_size ctx))"
    and "p2 = p1\<lparr> compilable := valid \<rparr>"
    and "valid2 = (if valid then \<not> check_all_2x2_deadlock ctx p2 else valid)"
    and "(if valid2 then generate_deadlock_map ctx p2 else Some p2) = Some p3"
    and "valid3 = (if valid2
                   then \<not> bitset_covers_any (crates p3) (deadlocks p3) (bitset_size ctx)
                   else valid2)"
    and "(if valid3
                    then check_reachability ctx (crates p3) (goals p3) (walls p3) (player p3)
                    else Some valid3) = Some valid4"
  shows "suffix_problem ctx p level_str = Some (p3\<lparr> potentially_solvable := valid4 \<rparr>, compilable p3)"
proof -
  have "suffix_problem ctx p level_str
    = (case (if valid2 then generate_deadlock_map ctx p2 else Some p2) of
           None \<Rightarrow> None
         | Some p3 \<Rightarrow>
             (let valid3 = (if valid2
                   then \<not> bitset_covers_any (crates p3) (deadlocks p3) (bitset_size ctx)
                   else valid2)
              in case (if valid3
                    then check_reachability ctx (crates p3) (goals p3) (walls p3) (player p3)
                    else Some valid3) of
                   None \<Rightarrow> None
                 | Some valid4 \<Rightarrow>
                     Some (p3\<lparr> potentially_solvable := valid4 \<rparr>, compilable p3)))"
    unfolding suffix_problem_def loop_end_def Let_def assms(1-5) by (rule refl)
  also have "\<dots> = Some (p3\<lparr> potentially_solvable := valid4 \<rparr>, compilable p3)"
    unfolding assms(6) option.case Let_def assms(7) [symmetric] assms(8) by (rule refl)
  finally show ?thesis .
qed

lemma suffix_problem_result:
  assumes wf: "wf_context ctx"
  shows "\<exists>p'. suffix_problem ctx p level_str = Some (p', compilable p')
     \<and> walls p' = ps_walls (suffix_tiles ctx p level_str)
     \<and> goals p' = ps_goals (suffix_tiles ctx p level_str)
     \<and> crates p' = ps_crates (suffix_tiles ctx p level_str)
     \<and> player p' = ps_player (suffix_tiles ctx p level_str)
     \<and> goal_count p' = ps_goal_count (suffix_tiles ctx p level_str)
     \<and> compilable p'
         = (ps_player_count (suffix_tiles ctx p level_str) = 1
            \<and> ps_goal_count (suffix_tiles ctx p level_str) = ps_crate_count (suffix_tiles ctx p level_str)
            \<and> \<not> bitset_equals (crates p') (goals p') (bitset_size ctx))
     \<and> potentially_solvable p'
         = (compilable p' \<and> \<not> check_all_2x2_deadlock ctx p'
            \<and> \<not> bitset_covers_any (crates p') (deadlocks p') (bitset_size ctx)
            \<and> check_reachability ctx (crates p') (goals p') (walls p') (player p') = Some True)
     \<and> (compilable p' \<longrightarrow> wf_problem ctx p')
     \<and> (compilable p' \<and> \<not> check_all_2x2_deadlock ctx p'
          \<longrightarrow> deadlock_maps ctx p' = Some (deadlocks p', heuristics p'))"
proof -
  define st where "st = suffix_tiles ctx p level_str"
  define p1 where "p1 = p\<lparr> walls := ps_walls st, goals := ps_goals st, crates := ps_crates st,
                  player := ps_player st, goal_count := ps_goal_count st \<rparr>"
  define valid where "valid \<longleftrightarrow> ps_player_count st = 1 \<and> ps_goal_count st = ps_crate_count st
                   \<and> \<not> bitset_equals (crates p1) (goals p1) (bitset_size ctx)"
  define p2 where "p2 = p1\<lparr> compilable := valid \<rparr>"
  define valid2 where "valid2 = (if valid then \<not> check_all_2x2_deadlock ctx p2 else valid)"
  have f2: "walls p2 = ps_walls st" "goals p2 = ps_goals st" "crates p2 = ps_crates st"
    "player p2 = ps_player st" "goal_count p2 = ps_goal_count st" "compilable p2 = valid"
    by (simp_all add: p2_def p1_def)
  have f1: "crates p1 = ps_crates st" "goals p1 = ps_goals st" by (simp_all add: p1_def)
  have cw: "closed_walls ctx (walls p2)"
    unfolding f2 st_def by (rule suffix_tiles_closed_walls [OF wf])
  have gw: "goals_off_walls ctx p2"
    unfolding goals_off_walls_def f2 st_def using suffix_tiles_not_wall(1) [OF wf] by blast
  have wfp: "wf_problem ctx p2" if valid
  proof -
    from that have one: "ps_player_count (suffix_tiles ctx p level_str) = 1"
      by (simp add: valid_def st_def)
    show ?thesis
      unfolding wf_problem_def f2
      using cw gw suffix_tiles_lengths [OF wf, of p level_str]
        suffix_tiles_not_wall(2) [OF wf, of _ p level_str]
        suffix_tiles_player_inner [OF wf one]
      by (simp add: f2 st_def [symmetric])
  qed
  text \<open>The deadlock map, when it is computed.\<close>
  obtain m where m: "deadlock_maps ctx p2 = Some m"
    "length (fst m) = bitset_size ctx" "length (snd m) = area ctx"
    using deadlock_maps_terminates [OF wf cw gw] by blast
  define p3 where "p3 = (if valid2 then p2\<lparr> deadlocks := fst m, heuristics := snd m \<rparr> else p2)"
  have g3: "(if valid2 then generate_deadlock_map ctx p2 else Some p2) = Some p3"
    by (simp add: p3_def generate_deadlock_map_maps m)
  have f3: "walls p3 = ps_walls st" "goals p3 = ps_goals st" "crates p3 = ps_crates st"
    "player p3 = ps_player st" "goal_count p3 = ps_goal_count st" "compilable p3 = valid"
    by (simp_all add: p3_def f2)
  define valid3 where "valid3 = (if valid2
                   then \<not> bitset_covers_any (crates p3) (deadlocks p3) (bitset_size ctx)
                   else valid2)"
  have v32: "valid3 \<Longrightarrow> valid2" by (simp add: valid3_def split: if_splits)
  have v21: "valid2 \<Longrightarrow> valid" by (simp add: valid2_def split: if_splits)
  text \<open>The flood fill of the player, when it runs.\<close>
  have "\<exists>v. check_reachability ctx (crates p3) (goals p3) (walls p3) (player p3) = Some v"
    if valid3
  proof -
    from that v32 v21 have valid by simp
    then have w: "wf_problem ctx p2" by (rule wfp)
    then have "\<not> get_bit (walls p3) (player p3)" "player p3 < 64 * bitset_size ctx"
      using inner_in_range [OF wf, of "player p2"] by (simp_all add: wf_problem_def f3 f2)
    moreover have "closed_walls ctx (walls p3)" using cw by (simp add: f3 f2)
    ultimately show ?thesis
      using check_reachability_returns [OF wf, of "walls p3" "player p3"] by blast
  qed
  then obtain valid4 where r4: "(if valid3
                    then check_reachability ctx (crates p3) (goals p3) (walls p3) (player p3)
                    else Some valid3) = Some valid4"
    by (cases valid3) auto
  define p' where "p' = p3\<lparr> potentially_solvable := valid4 \<rparr>"
  have res: "suffix_problem ctx p level_str = Some (p', compilable p3)"
    unfolding p'_def
    by (rule suffix_problem_unfold [OF st_def p1_def _ p2_def valid2_def g3 valid3_def r4])
       (simp add: valid_def)
  have f': "walls p' = ps_walls st" "goals p' = ps_goals st" "crates p' = ps_crates st"
    "player p' = ps_player st" "goal_count p' = ps_goal_count st" "compilable p' = valid"
    "deadlocks p' = deadlocks p3" "heuristics p' = heuristics p3" "potentially_solvable p' = valid4"
    by (simp_all add: p'_def f3)
  have ca: "check_all_2x2_deadlock ctx p' = check_all_2x2_deadlock ctx p2"
    by (rule check_all_2x2_deadlock_fields) (simp_all add: f' f2)
  have ps: "valid4 = (valid \<and> \<not> check_all_2x2_deadlock ctx p2
            \<and> \<not> bitset_covers_any (crates p3) (deadlocks p3) (bitset_size ctx)
            \<and> check_reachability ctx (crates p3) (goals p3) (walls p3) (player p3) = Some True)"
    using r4 by (auto simp add: valid3_def valid2_def split: if_splits)
  have wf': "wf_problem ctx p'" if valid
    using wfp [OF that] by (simp add: wf_problem_def goals_off_walls_def f' f2)
  have dm: "deadlock_maps ctx p' = Some (deadlocks p', heuristics p')"
    if "valid" "\<not> check_all_2x2_deadlock ctx p2"
  proof -
    from that have valid2 by (simp add: valid2_def)
    then have "deadlocks p3 = fst m" "heuristics p3 = snd m" by (simp_all add: p3_def)
    moreover have "deadlock_maps ctx p' = deadlock_maps ctx p2"
      by (rule deadlock_maps_fields) (simp_all add: f' f2)
    ultimately show ?thesis by (simp add: m f')
  qed
  show ?thesis
    apply (rule exI [of _ p'])
    apply (intro conjI)
    subgoal using res by (simp add: f' f3)
    subgoal by (simp add: f' st_def)
    subgoal by (simp add: f' st_def)
    subgoal by (simp add: f' st_def)
    subgoal by (simp add: f' st_def)
    subgoal by (simp add: f' st_def)
    subgoal by (simp add: f' valid_def f1 st_def)
    subgoal using ps by (simp add: f' ca f3 [symmetric])
    subgoal using wf' by (simp add: f')
    subgoal using dm by (simp add: f' ca)
    done
qed

lemma upt_15: "[0..<15] = [0, 1, 2, 3, 4, 5, 6, 7, 8, 9, 10, 11, 12, 13, 14]"
  by (simp add: upt_rec)

lemma replicate_15: "replicate 15 (x::nat) = [x, x, x, x, x, x, x, x, x, x, x, x, x, x, x]"
  by (simp add: numeral_eq_Suc)

lemma window_unsafe_unfold:
  "window_unsafe p position (offset # offsets) unsafe =
     (if \<not> (get_bit (crates p) (pos_add position offset) \<or> get_bit (walls p) (pos_add position offset))
      then 0
      else window_unsafe p position offsets
             (if get_bit (crates p) (pos_add position offset)
                 \<and> \<not> get_bit (goals p) (pos_add position offset)
              then unsafe + 1 else unsafe))"
  by (simp add: Let_def)

lemmas check_all_eval =
  check_all_2x2_deadlock_def scan_rows_2x2_unfold scan_row_2x2_unfold window_unsafe_unfold
  neighborhood_def pos_add_def get_bit_def

lemmas deadlock_eval =
  deadlock_maps_def dl_goal_def dl_step_def dl_relax_def directions_def pos_add_def get_bit_def
  clear_bit_def bitset_ones_def while_option_unfold Let_def

lemmas reach_eval =
  check_reachability_def reach_fill_def reach_step_def reach_push_def directions_def pos_add_def
  get_bit_def set_bit_bs_def bitset_zeros_def bitset_xor_def while_option_unfold Let_def

definition problem_row3 :: problem_t where
  "problem_row3 =
     \<lparr> goal_count = 1, player = 6, walls = [- 449], goals = [256], crates = [128],
       deadlocks = [- 385],
       heuristics = [15, 15, 15, 15, 15, 15, 15, 1, 0, 15, 15, 15, 15, 15, 15],
       compilable = True, potentially_solvable = True \<rparr>"

lemma suffix_problem_row3:
  "suffix_problem ctx_row3 (allocate_problem ctx_row3) ''A10'' = Some (problem_row3, True)"
proof -
  let ?p = "allocate_problem ctx_row3"
  define st where "st = suffix_tiles ctx_row3 ?p ''A10''"
  define p1 where "p1 = ?p\<lparr> walls := ps_walls st, goals := ps_goals st, crates := ps_crates st,
                  player := ps_player st, goal_count := ps_goal_count st \<rparr>"
  define p2 where "p2 = p1\<lparr> compilable := True \<rparr>"
  define p3 where "p3 = p2\<lparr> deadlocks := [- 385],
     heuristics := [15, 15, 15, 15, 15, 15, 15, 1, 0, 15, 15, 15, 15, 15, 15] \<rparr>"
  have st: "st = \<lparr> ps_walls = [- 449], ps_goals = [256], ps_crates = [128], ps_player = 6,
       ps_position = 11, ps_goal_count = 1, ps_crate_count = 1,
       ps_player_count = 1, ps_rest = [] \<rparr>"
    unfolding st_def by (rule suffix_tiles_row3)
  have p2: "p2 = \<lparr> goal_count = 1, player = 6, walls = [- 449], goals = [256], crates = [128],
       deadlocks = [0], heuristics = replicate 15 0,
       compilable = True, potentially_solvable = False \<rparr>"
    by (simp add: p2_def p1_def st allocate_problem_def ctx_row3_eq bitset_zeros_def)
  have v1: "True = (ps_player_count st = 1 \<and> ps_goal_count st = ps_crate_count st
                   \<and> \<not> bitset_equals (crates p1) (goals p1) (bitset_size ctx_row3))"
    by (simp add: p1_def st ctx_row3_eq)
  have c2: "\<not> check_all_2x2_deadlock ctx_row3 p2"
    by (simp add: p2 ctx_row3_eq check_all_eval)
  then have v2: "True = (if True then \<not> check_all_2x2_deadlock ctx_row3 p2 else True)" by simp
  have "deadlock_maps ctx_row3 p2
          = Some ([- 385], [15, 15, 15, 15, 15, 15, 15, 1, 0, 15, 15, 15, 15, 15, 15])"
    unfolding deadlock_maps_def p2 ctx_row3_eq
    by (simp add: upt_15 replicate_15) (simp add: deadlock_eval)
  then have g: "(if True then generate_deadlock_map ctx_row3 p2 else Some p2) = Some p3"
    by (simp add: generate_deadlock_map_maps p3_def)
  have p3: "p3 = \<lparr> goal_count = 1, player = 6, walls = [- 449], goals = [256], crates = [128],
       deadlocks = [- 385],
       heuristics = [15, 15, 15, 15, 15, 15, 15, 1, 0, 15, 15, 15, 15, 15, 15],
       compilable = True, potentially_solvable = False \<rparr>"
    by (simp add: p3_def p2)
  have v3: "True = (if True
                   then \<not> bitset_covers_any (crates p3) (deadlocks p3) (bitset_size ctx_row3)
                   else True)"
    by (simp add: p3 ctx_row3_eq)
  have r: "(if True
              then check_reachability ctx_row3 (crates p3) (goals p3) (walls p3) (player p3)
              else Some True) = Some True"
    by (simp add: p3 ctx_row3_eq reach_eval)
  from suffix_problem_unfold [OF st_def p1_def v1 p2_def v2 g v3 r]
  show ?thesis by (simp add: p3 problem_row3_def)
qed

subsection \<open>The two forms of the parser agree\<close>

text \<open>\<open>strlen\<close>: the number of characters before the first NUL.\<close>

definition strlen :: "string \<Rightarrow> nat" where
  "strlen level_str = length (takeWhile (\<lambda>c. c \<noteq> CHR 0x00) level_str)"

definition same_fields :: "'a parser_scheme \<Rightarrow> 'b parser_scheme \<Rightarrow> bool" where
  "same_fields a b \<longleftrightarrow>
     ps_walls a = ps_walls b \<and> ps_goals a = ps_goals b \<and> ps_crates a = ps_crates b
     \<and> ps_player a = ps_player b \<and> ps_position a = ps_position b
     \<and> ps_goal_count a = ps_goal_count b \<and> ps_crate_count a = ps_crate_count b
     \<and> ps_player_count a = ps_player_count b"

lemma strlen_le: "strlen s \<le> length s"
  by (simp add: strlen_def length_takeWhile_le)

lemma strlen_less:
  assumes "i < strlen s"
  shows "i < length s" and "s ! i \<noteq> CHR 0x00"
proof -
  from assms strlen_le [of s] show l: "i < length s" by simp
  from assms have "takeWhile (\<lambda>c. c \<noteq> CHR 0x00) s ! i = s ! i"
    unfolding strlen_def by (rule takeWhile_nth)
  moreover from assms have "takeWhile (\<lambda>c. c \<noteq> CHR 0x00) s ! i \<in> set (takeWhile (\<lambda>c. c \<noteq> CHR 0x00) s)"
    unfolding strlen_def by (rule nth_mem)
  ultimately show "s ! i \<noteq> CHR 0x00" by (auto dest: set_takeWhileD)
qed

lemma read_char_strlen: "read_char s (strlen s) = CHR 0x00"
proof (cases "strlen s < length s")
  case True
  then have "\<not> (s ! strlen s \<noteq> CHR 0x00)"
    unfolding strlen_def by (rule nth_length_takeWhile)
  with True show ?thesis by (simp add: read_char_def)
next
  case False
  then show ?thesis by (simp add: read_char_def)
qed

lemma string_tiles_drop_strlen: "string_tiles (drop (strlen s) s) = []"
proof -
  have "drop (strlen s) s = dropWhile (\<lambda>c. c \<noteq> CHR 0x00) s"
    by (simp add: strlen_def dropWhile_eq_drop)
  moreover have "takeWhile (\<lambda>c. c \<noteq> CHR 0x00) (dropWhile (\<lambda>c. c \<noteq> CHR 0x00) s) = []"
    by (induction s) auto
  ultimately show ?thesis by (simp add: string_tiles_def)
qed

lemma same_fields_index [simp]: "same_fields (a\<lparr> ps_index := i \<rparr>) b = same_fields a b"
  by (simp add: same_fields_def)

lemma same_fields_tile_placed:
  "same_fields a b \<Longrightarrow> same_fields (tile_placed c a) (tile_placed c b)"
  by (simp add: same_fields_def tile_placed_def)

lemma loop_end_same: "same_fields a b \<Longrightarrow> loop_end ctx p a = loop_end ctx p b"
  by (simp add: loop_end_def same_fields_def)

lemma parse_cell_unfold:
  "parse_cell s a =
     (case cell_body s a of
        (failed, ended, a') \<Rightarrow> if failed then parse_cell s a' else Some (failed, ended, a'))"
proof -
  obtain failed ended a' where c: "cell_body s a = (failed, ended, a')" by (cases "cell_body s a")
  show ?thesis
  proof (cases failed)
    case True
    with c have "\<not> ended"
      by (auto simp add: cell_body_def Let_def split: if_splits option.splits)
    have "parse_cell s a = parse_cell s a'"
      unfolding parse_cell_def
      by (subst while_option_unfold) (simp add: c True \<open>\<not> ended\<close>)
    with c True show ?thesis by simp
  next
    case False
    have "parse_cell s a = Some (failed, ended, a')"
      unfolding parse_cell_def
      by (subst while_option_unfold, simp add: c, subst while_option_unfold, simp add: False)
    with c False show ?thesis by simp
  qed
qed

lemma parse_cell_suffix:
  assumes "same_fields a b" "ps_index a \<le> strlen s" "strlen s < 4294967296"
  shows "case suffix_cell b (drop (ps_index a) s) of
           None \<Rightarrow> \<exists>a'. parse_cell s a = Some (False, True, a') \<and> same_fields a' b
         | Some b' \<Rightarrow>
             \<exists>a'. parse_cell s a = Some (False, False, a')
                \<and> same_fields (a'\<lparr> ps_position := inc16 (ps_position a') \<rparr>) b'
                \<and> ps_rest b' = drop (ps_index a') s \<and> ps_index a' \<le> strlen s"
  using assms(1,2)
proof (induction "strlen s - ps_index a" arbitrary: a)
  case 0
  then have i: "ps_index a = strlen s" by simp
  have "suffix_cell b (drop (ps_index a) s) = None"
    unfolding i by (rule suffix_cell_None) (rule string_tiles_drop_strlen)
  moreover have "cell_body s a = (False, True, a\<lparr> ps_index := inc32 (ps_index a) \<rparr>)"
    by (simp add: cell_body_def i read_char_strlen)
  then have "parse_cell s a = Some (False, True, a\<lparr> ps_index := inc32 (ps_index a) \<rparr>)"
    by (subst parse_cell_unfold) simp
  ultimately show ?case using "0.prems"(1) by simp
next
  case (Suc n)
  let ?i = "ps_index a"
  let ?c = "s ! ?i"
  let ?a1 = "a\<lparr> ps_index := Suc ?i \<rparr>"
  from Suc.hyps(2) have lt: "?i < strlen s" by simp
  from strlen_less [OF lt] have il: "?i < length s" and nz: "?c \<noteq> CHR 0x00" by simp_all
  from lt assms(3) have inc: "inc32 ?i = Suc ?i" by (simp add: inc32_def)
  have rc: "read_char s ?i = ?c" using il by (simp add: read_char_def)
  have dr: "drop ?i s = ?c # drop (Suc ?i) s" using il by (simp add: Cons_nth_drop_Suc)
  have sf: "same_fields ?a1 b" using Suc.prems(1) by simp
  show ?case
  proof (cases "is_tile ?c")
    case True
    have "cell_body s a = (False, False, tile_placed ?c ?a1)"
      by (simp add: cell_body_def rc nz inc place_tile_Some [OF True])
    then have pc: "parse_cell s a = Some (False, False, tile_placed ?c ?a1)"
      by (subst parse_cell_unfold) simp
    have sc: "suffix_cell b (drop ?i s)
        = Some ((tile_placed ?c b)\<lparr> ps_rest := drop (Suc ?i) s,
                                       ps_position := inc16 (ps_position (tile_placed ?c b)) \<rparr>)"
      by (simp add: dr nz place_tile_Some [OF True])
    have "same_fields ((tile_placed ?c ?a1)\<lparr> ps_position := inc16 (ps_position (tile_placed ?c ?a1)) \<rparr>)
            ((tile_placed ?c b)\<lparr> ps_rest := drop (Suc ?i) s,
                                 ps_position := inc16 (ps_position (tile_placed ?c b)) \<rparr>)"
      using same_fields_tile_placed [OF sf, of ?c] by (simp add: same_fields_def)
    moreover have "ps_index (tile_placed ?c ?a1) = Suc ?i" by (simp add: tile_placed_def)
    ultimately show ?thesis using pc lt by (simp add: sc)
  next
    case False
    have "cell_body s a = (True, False, ?a1)"
      by (simp add: cell_body_def rc nz inc place_tile_None [OF False])
    then have pc: "parse_cell s a = parse_cell s ?a1"
      by (subst parse_cell_unfold) simp
    have sc: "suffix_cell b (drop ?i s) = suffix_cell b (drop (ps_index ?a1) s)"
      by (simp add: dr nz place_tile_None [OF False])
    have e: "n = strlen s - ps_index ?a1" using Suc.hyps(2) by simp
    have le: "ps_index ?a1 \<le> strlen s" using lt by simp
    from Suc.hyps(1) [OF e sf le] show ?thesis unfolding pc sc .
  qed
qed

lemma parse_row_suffix:
  assumes "same_fields a b" "ps_rest b = drop (ps_index a) s" "ps_index a \<le> strlen s"
    and "strlen s < 4294967296"
  shows "\<exists>a'. parse_row s n a = Some (fst (suffix_row n b), a')
            \<and> same_fields a' (snd (suffix_row n b))
            \<and> (\<not> fst (suffix_row n b) \<longrightarrow>
                 ps_rest (snd (suffix_row n b)) = drop (ps_index a') s \<and> ps_index a' \<le> strlen s)"
  using assms(1-3)
proof (induction n arbitrary: a b)
  case 0
  then show ?case by simp
next
  case (Suc n)
  note pc = parse_cell_suffix [OF Suc.prems(1,3) assms(4)]
  show ?case
  proof (cases "suffix_cell b (ps_rest b)")
    case None
    with pc Suc.prems(2) obtain a' where "parse_cell s a = Some (False, True, a')" "same_fields a' b"
      by auto
    with None show ?thesis by simp
  next
    case (Some b')
    with pc Suc.prems(2) obtain a' where a': "parse_cell s a = Some (False, False, a')"
      "same_fields (a'\<lparr> ps_position := inc16 (ps_position a') \<rparr>) b'"
      "ps_rest b' = drop (ps_index a') s" "ps_index a' \<le> strlen s"
      by auto
    let ?a = "a'\<lparr> ps_position := inc16 (ps_position a') \<rparr>"
    from Suc.IH [of ?a b'] a'(2-4)
    obtain a'' where "parse_row s n ?a = Some (fst (suffix_row n b'), a'')"
      "same_fields a'' (snd (suffix_row n b'))"
      "\<not> fst (suffix_row n b') \<longrightarrow>
         ps_rest (snd (suffix_row n b')) = drop (ps_index a'') s \<and> ps_index a'' \<le> strlen s"
      by auto
    with Some a'(1) show ?thesis by simp
  qed
qed

lemma same_fields_position:
  "same_fields a b \<Longrightarrow> same_fields (a\<lparr> ps_position := q \<rparr>) (b\<lparr> ps_position := q \<rparr>)"
  by (simp add: same_fields_def)

lemma parse_rows_suffix:
  assumes "same_fields a b" "ps_rest b = drop (ps_index a) s" "ps_index a \<le> strlen s"
    and "strlen s < 4294967296"
  shows "\<exists>a'. parse_rows ctx s n a = Some a' \<and> same_fields a' (suffix_rows ctx n b)"
  using assms(1-3)
proof (induction n arbitrary: a b)
  case 0
  then show ?case by simp
next
  case (Suc n)
  obtain e b' where sr: "suffix_row (width ctx - 2) b = (e, b')"
    by (cases "suffix_row (width ctx - 2) b")
  from parse_row_suffix [OF Suc.prems assms(4), of "width ctx - 2"] sr
  obtain a' where a': "parse_row s (width ctx - 2) a = Some (e, a')" "same_fields a' b'"
    "\<not> e \<longrightarrow> ps_rest b' = drop (ps_index a') s \<and> ps_index a' \<le> strlen s"
    by auto
  show ?case
  proof (cases e)
    case True
    with sr a' show ?thesis by simp
  next
    case False
    let ?a = "a'\<lparr> ps_position := (ps_position a' + 2) mod 65536 \<rparr>"
    let ?b = "b'\<lparr> ps_position := (ps_position b' + 2) mod 65536 \<rparr>"
    have "ps_position a' = ps_position b'" using a'(2) by (simp add: same_fields_def)
    then have "same_fields ?a ?b" using same_fields_position [OF a'(2)] by simp
    moreover have "ps_rest ?b = drop (ps_index ?a) s" "ps_index ?a \<le> strlen s"
      using a'(3) False by simp_all
    ultimately obtain a'' where "parse_rows ctx s n ?a = Some a''"
      "same_fields a'' (suffix_rows ctx n ?b)"
      using Suc.IH [of ?a ?b] by blast
    with sr a'(1) False show ?thesis by simp
  qed
qed

lemma parse_tiles_suffix:
  assumes "strlen level_str < 4294967296"
  shows "\<exists>st. parse_tiles ctx p level_str = Some st
            \<and> same_fields st (suffix_tiles ctx p level_str)"
  unfolding parse_tiles_def suffix_tiles_def
  by (rule parse_rows_suffix [OF _ _ _ assms]) (simp_all add: same_fields_def)

text \<open>On a string of fewer than \<open>2^32\<close> characters before its first NUL, \<open>parse_problem\<close> is
  the recursion on the unread rest followed by the code after \<open>loop_end\<close>.\<close>

lemma parse_problem_suffix:
  assumes "strlen level_str < 4294967296"
  shows "parse_problem ctx p level_str = suffix_problem ctx p level_str"
proof -
  from parse_tiles_suffix [OF assms, of ctx p] obtain st
    where "parse_tiles ctx p level_str = Some st" "same_fields st (suffix_tiles ctx p level_str)"
    by blast
  then show ?thesis
    by (simp add: parse_problem_def suffix_problem_def loop_end_same)
qed

section \<open>The cells the player can walk to\<close>

text \<open>
  Stated on the grid alone: from a cell the player steps to the cell on the left
  (\<open>a - 1\<close>), on the right (\<open>a + 1\<close>), below (\<open>a + w\<close>) or above (\<open>a - w\<close>), when that cell
  is not a wall; \<open>walkable w ws start\<close> are the cells reached from \<open>start\<close> by such steps.
\<close>

inductive_set walkable :: "nat \<Rightarrow> bits \<Rightarrow> nat \<Rightarrow> nat set"
  for w :: nat and ws :: bits and start :: nat where
  here: "start \<in> walkable w ws start"
| left: "a \<in> walkable w ws start \<Longrightarrow> 1 \<le> a \<Longrightarrow> \<not> get_bit ws (a - 1)
         \<Longrightarrow> a - 1 \<in> walkable w ws start"
| right: "a \<in> walkable w ws start \<Longrightarrow> \<not> get_bit ws (a + 1) \<Longrightarrow> a + 1 \<in> walkable w ws start"
| down: "a \<in> walkable w ws start \<Longrightarrow> \<not> get_bit ws (a + w) \<Longrightarrow> a + w \<in> walkable w ws start"
| up: "a \<in> walkable w ws start \<Longrightarrow> w \<le> a \<Longrightarrow> \<not> get_bit ws (a - w)
       \<Longrightarrow> a - w \<in> walkable w ws start"

lemma pos_add_directions:
  assumes wf: "wf_context ctx" and a: "inner ctx a"
  shows "pos_add a (- 1) = a - 1" "pos_add a 1 = a + 1"
    "pos_add a (int (width ctx)) = a + width ctx"
    "pos_add a (- int (width ctx)) = a - width ctx"
    "1 \<le> a" "width ctx \<le> a"
proof -
  from wf have s: "area ctx < 65536" by (rule area_small)
  from a have i: "width ctx < a" "a + width ctx + 1 < area ctx" by (simp_all add: inner_def)
  from i show "1 \<le> a" "width ctx \<le> a" by simp_all
  from i s show "pos_add a (- 1) = a - 1" by (simp add: pos_add_def nat_diff_distrib')
  from i s show "pos_add a 1 = a + 1" by (simp add: pos_add_def nat_add_distrib)
  from i s show "pos_add a (int (width ctx)) = a + width ctx"
    by (simp add: pos_add_def nat_add_distrib)
  from i s have "(int a - int (width ctx)) mod 65536 = int a - int (width ctx)" by simp
  with i show "pos_add a (- int (width ctx)) = a - width ctx"
    by (simp add: pos_add_def nat_diff_distrib')
qed

lemma reachable_walkable:
  assumes wf: "wf_context ctx" and cw: "closed_walls ctx ws" and st: "inner ctx start"
  shows "reachable ctx ws start = walkable (width ctx) ws start"
proof (intro set_eqI iffI)
  fix x assume "x \<in> reachable ctx ws start"
  then show "x \<in> walkable (width ctx) ws start"
  proof (induction rule: reachable.induct)
    case start
    show ?case by (rule walkable.here)
  next
    case (step a d)
    from step.hyps(1) have ia: "inner ctx a" by (rule reachable_inner [OF wf cw st])
    note pa = pos_add_directions [OF wf ia]
    from step.hyps(2) have "d = - 1 \<or> d = 1 \<or> d = int (width ctx) \<or> d = - int (width ctx)"
      by (auto simp add: directions_def)
    then show ?case
    proof (elim disjE)
      assume d: "d = - 1"
      from step.hyps(3) have "\<not> get_bit ws (a - 1)" unfolding d pa(1) .
      from walkable.left [OF step.IH pa(5) this] show ?thesis unfolding d pa(1) .
    next
      assume d: "d = 1"
      from step.hyps(3) have "\<not> get_bit ws (a + 1)" unfolding d pa(2) .
      from walkable.right [OF step.IH this] show ?thesis unfolding d pa(2) .
    next
      assume d: "d = int (width ctx)"
      from step.hyps(3) have "\<not> get_bit ws (a + width ctx)" unfolding d pa(3) .
      from walkable.down [OF step.IH this] show ?thesis unfolding d pa(3) .
    next
      assume d: "d = - int (width ctx)"
      from step.hyps(3) have "\<not> get_bit ws (a - width ctx)" unfolding d pa(4) .
      from walkable.up [OF step.IH pa(6) this] show ?thesis unfolding d pa(4) .
    qed
  qed
next
  fix x assume "x \<in> walkable (width ctx) ws start"
  then show "x \<in> reachable ctx ws start"
  proof (induction rule: walkable.induct)
    case here
    show ?case by (rule reachable.start)
  next
    case (left a)
    from left.IH have "inner ctx a" by (rule reachable_inner [OF wf cw st])
    note pa = pos_add_directions [OF wf this]
    have "- 1 \<in> set (directions ctx)" by (simp add: directions_def)
    from reachable.step [OF left.IH this] left.hyps(3) show ?case unfolding pa(1) by blast
  next
    case (right a)
    from right.IH have "inner ctx a" by (rule reachable_inner [OF wf cw st])
    note pa = pos_add_directions [OF wf this]
    have "1 \<in> set (directions ctx)" by (simp add: directions_def)
    from reachable.step [OF right.IH this] right.hyps(2) show ?case unfolding pa(2) by blast
  next
    case (down a)
    from down.IH have "inner ctx a" by (rule reachable_inner [OF wf cw st])
    note pa = pos_add_directions [OF wf this]
    have "int (width ctx) \<in> set (directions ctx)" by (simp add: directions_def)
    from reachable.step [OF down.IH this] down.hyps(2) show ?case unfolding pa(3) by blast
  next
    case (up a)
    from up.IH have "inner ctx a" by (rule reachable_inner [OF wf cw st])
    note pa = pos_add_directions [OF wf this]
    have "- int (width ctx) \<in> set (directions ctx)" by (simp add: directions_def)
    from reachable.step [OF up.IH this] up.hyps(3) show ?case unfolding pa(4) by blast
  qed
qed

text \<open>What \<open>check_reachability\<close> returns, on closed walls and from a cell that is not a
  wall.\<close>

lemma check_reachability_walkable:
  assumes "wf_context ctx" and "closed_walls ctx ws"
    and "\<not> get_bit ws start" and "start < 64 * bitset_size ctx"
  shows "\<exists>reach. reach_fill ctx ws start = Some (reach, [])
            \<and> (\<forall>pos<64 * bitset_size ctx.
                  get_bit reach pos \<longleftrightarrow> pos \<in> walkable (width ctx) ws start)"
    and "check_reachability ctx cr gl ws start
             = Some (\<forall>pos<64 * bitset_size ctx.
                       get_bit cr pos \<noteq> get_bit gl pos
                       \<longrightarrow> pos \<in> walkable (width ctx) ws start)"
proof -
  from assms have st: "inner ctx start" by (simp add: closed_walls_def)
  note rw = reachable_walkable [OF assms(1,2) st]
  from reach_fill_terminates [OF assms(1,2) st]
  obtain reach where r: "reach_fill ctx ws start = Some (reach, [])"
    and inv: "reach_inv ctx ws start (reach, [])" by blast
  have m: "\<forall>pos<64 * bitset_size ctx. get_bit reach pos \<longleftrightarrow> pos \<in> walkable (width ctx) ws start"
    using reach_inv_final [OF assms(1,2) st inv] by (simp add: rw)
  with r show "\<exists>reach. reach_fill ctx ws start = Some (reach, [])
            \<and> (\<forall>pos<64 * bitset_size ctx.
                  get_bit reach pos \<longleftrightarrow> pos \<in> walkable (width ctx) ws start)"
    by blast
  have "bitset_covers_all (bitset_xor cr gl (bitset_size ctx)) reach (bitset_size ctx)
        = (\<forall>pos<64 * bitset_size ctx.
             get_bit cr pos \<noteq> get_bit gl pos \<longrightarrow> pos \<in> walkable (width ctx) ws start)"
    using m by (simp add: bitset_covers_all_iff get_bit_xor)
  with r show "check_reachability ctx cr gl ws start
             = Some (\<forall>pos<64 * bitset_size ctx.
                       get_bit cr pos \<noteq> get_bit gl pos
                       \<longrightarrow> pos \<in> walkable (width ctx) ws start)"
    by (simp add: check_reachability_def)
qed

section \<open>C7: check\_reachability\<close>

text \<open>
  C7. On closed walls (every cell that is not a wall lies inside the border) and for a
  player standing on a cell that is not a wall, the flood fill of \<open>check_reachability\<close>
  stops with exactly the cells marked that the player can walk to by steps to the left,
  right, lower and upper neighbour over cells that are not walls, and the function returns
  true if and only if every cell that holds a crate or a goal but not both is one of these
  cells.
\<close>

theorem check_reachability_flood_fill:
  assumes "wf_context ctx" and "closed_walls ctx ws"
    and "\<not> get_bit ws start" and "start < 64 * bitset_size ctx"
  shows "(\<exists>reach. reach_fill ctx ws start = Some (reach, [])
            \<and> (\<forall>pos<64 * bitset_size ctx.
                  get_bit reach pos \<longleftrightarrow> pos \<in> walkable (width ctx) ws start))
         \<and> check_reachability ctx cr gl ws start
             = Some (\<forall>pos<64 * bitset_size ctx.
                       (get_bit cr pos \<and> \<not> get_bit gl pos \<or> get_bit gl pos \<and> \<not> get_bit cr pos)
                       \<longrightarrow> pos \<in> walkable (width ctx) ws start)"
proof -
  have "(get_bit cr pos \<and> \<not> get_bit gl pos \<or> get_bit gl pos \<and> \<not> get_bit cr pos)
        \<longleftrightarrow> get_bit cr pos \<noteq> get_bit gl pos" for pos
    by blast
  with check_reachability_walkable(1) [OF assms] check_reachability_walkable(2) [OF assms, of cr gl]
  show ?thesis by simp
qed

theorem check_reachability_flood_fill_witness:
  "wf_context ctx_row3 \<and> closed_walls ctx_row3 [- 449] \<and> \<not> get_bit [- 449] 6
   \<and> 6 < 64 * bitset_size ctx_row3
   \<and> check_reachability ctx_row3 [128] [256] [- 449] 6 = Some True
   \<and> get_bit [128] 7 \<and> \<not> get_bit [256] 7 \<and> 7 \<in> walkable (width ctx_row3) [- 449] 6
   \<and> get_bit [256] 8 \<and> \<not> get_bit [128] 8 \<and> 8 \<in> walkable (width ctx_row3) [- 449] 6"
proof -
  have wf: "wf_context ctx_row3" unfolding ctx_row3_def by (rule wf_create_context)
  have nw: "\<not> get_bit [- 449] 6" by (simp add: get_bit_def)
  have r: "6 < 64 * bitset_size ctx_row3" by (simp add: ctx_row3_eq)
  have e: "check_reachability ctx_row3 [128] [256] [- 449] 6 = Some True"
    by (simp add: ctx_row3_eq reach_eval)
  have b: "get_bit [128] 7" "\<not> get_bit [256] 7" "get_bit [256] 8" "\<not> get_bit [128] 8"
    by (simp_all add: get_bit_def)
  have n: "(7::nat) < 64 * bitset_size ctx_row3" "(8::nat) < 64 * bitset_size ctx_row3"
    by (simp_all add: ctx_row3_eq)
  from check_reachability_flood_fill [OF wf closed_walls_row3 nw r, of "[128]" "[256]"] e
  have "\<forall>pos<64 * bitset_size ctx_row3.
         (get_bit [128] pos \<and> \<not> get_bit [256] pos \<or> get_bit [256] pos \<and> \<not> get_bit [128] pos)
         \<longrightarrow> pos \<in> walkable (width ctx_row3) [- 449] 6"
    by simp
  with b n have "7 \<in> walkable (width ctx_row3) [- 449] 6" "8 \<in> walkable (width ctx_row3) [- 449] 6"
    by blast+
  with wf closed_walls_row3 nw r e b show ?thesis by blast
qed

section \<open>What check\_all\_2x2\_deadlock tests\<close>

text \<open>
  Stated on the grid alone: the 2x2 window whose upper left cell is \<open>pos\<close> is stuck when
  each of its four cells holds a wall or a crate and one of them holds a crate that is not
  on a goal.
\<close>

definition window_stuck :: "nat \<Rightarrow> problem_t \<Rightarrow> nat \<Rightarrow> bool" where
  "window_stuck w p pos \<longleftrightarrow>
     (\<forall>c \<in> {pos, pos + 1, pos + w, pos + w + 1}. get_bit (walls p) c \<or> get_bit (crates p) c)
     \<and> (\<exists>c \<in> {pos, pos + 1, pos + w, pos + w + 1}.
           get_bit (crates p) c \<and> \<not> get_bit (goals p) c)"

lemma window_unsafe_iff:
  "window_unsafe p pos offsets u \<noteq> 0 \<longleftrightarrow>
     (\<forall>off \<in> set offsets. get_bit (crates p) (pos_add pos off) \<or> get_bit (walls p) (pos_add pos off))
     \<and> (u \<noteq> 0 \<or> (\<exists>off \<in> set offsets.
            get_bit (crates p) (pos_add pos off) \<and> \<not> get_bit (goals p) (pos_add pos off)))"
proof (induction offsets arbitrary: u)
  case Nil
  show ?case by simp
next
  case (Cons off offsets)
  show ?case
  proof (cases "get_bit (crates p) (pos_add pos off) \<or> get_bit (walls p) (pos_add pos off)")
    case False
    then show ?thesis by (simp add: Let_def)
  next
    case True
    show ?thesis
    proof (cases "get_bit (crates p) (pos_add pos off) \<and> \<not> get_bit (goals p) (pos_add pos off)")
      case u: True
      have "window_unsafe p pos (off # offsets) u = window_unsafe p pos offsets (u + 1)"
        using True u by (simp add: Let_def)
      with Cons.IH [of "u + 1"] True u show ?thesis by auto
    next
      case u: False
      have "window_unsafe p pos (off # offsets) u = window_unsafe p pos offsets u"
        using True u by (auto simp add: Let_def)
      with Cons.IH [of u] True u show ?thesis by auto
    qed
  qed
qed

lemma window_unsafe_stuck:
  assumes "pos + width ctx + 1 < 65536"
  shows "window_unsafe p pos (neighborhood ctx) 0 \<noteq> 0 \<longleftrightarrow> window_stuck (width ctx) p pos"
proof -
  from assms have "pos_add pos 0 = pos" "pos_add pos 1 = pos + 1"
    "pos_add pos (int (width ctx)) = pos + width ctx"
    "pos_add pos (int (width ctx) + 1) = pos + width ctx + 1"
    by (simp_all add: pos_add_def nat_add_distrib)
  then show ?thesis
    unfolding window_unsafe_iff window_stuck_def neighborhood_def by auto
qed

lemma scan_row_2x2_iff:
  assumes "position + n + width ctx + 1 \<le> 65536"
  shows "fst (scan_row_2x2 ctx p n position)
           \<longleftrightarrow> (\<exists>x<n. window_stuck (width ctx) p (position + x))"
    and "\<not> fst (scan_row_2x2 ctx p n position)
           \<Longrightarrow> snd (scan_row_2x2 ctx p n position) = position + n"
  using assms
proof (induction n arbitrary: position)
  case 0
  {
    case 1 show ?case by simp
  next
    case 2 show ?case by simp
  }
next
  case (Suc n)
  {
    case 1
    then have a: "position + width ctx + 1 < 65536" and m: "(position + 1) mod 65536 = position + 1"
      and b: "(position + 1) + n + width ctx + 1 \<le> 65536"
      by simp_all
    show ?case
    proof (cases "window_stuck (width ctx) p position")
      case True
      with window_unsafe_stuck [OF a, of p] have "window_unsafe p position (neighborhood ctx) 0 \<noteq> 0"
        by blast
      moreover from True have "\<exists>x<Suc n. window_stuck (width ctx) p (position + x)"
        by (intro exI [of _ 0]) simp
      ultimately show ?thesis by simp
    next
      case False
      have "(\<exists>x<Suc n. window_stuck (width ctx) p (position + x))
            \<longleftrightarrow> (\<exists>x<n. window_stuck (width ctx) p (position + 1 + x))"
      proof
        assume "\<exists>x<Suc n. window_stuck (width ctx) p (position + x)"
        then obtain x where x: "x < Suc n" "window_stuck (width ctx) p (position + x)" by blast
        with False have "x \<noteq> 0" by (cases x) auto
        then obtain y where "x = Suc y" by (cases x) auto
        with x show "\<exists>x<n. window_stuck (width ctx) p (position + 1 + x)" by auto
      next
        assume "\<exists>x<n. window_stuck (width ctx) p (position + 1 + x)"
        then obtain x where "x < n" "window_stuck (width ctx) p (position + Suc x)" by auto
        then show "\<exists>x<Suc n. window_stuck (width ctx) p (position + x)"
          by (intro exI [of _ "Suc x"]) simp
      qed
      moreover from False window_unsafe_stuck [OF a, of p]
      have "window_unsafe p position (neighborhood ctx) 0 = 0" by blast
      then have "scan_row_2x2 ctx p (Suc n) position = scan_row_2x2 ctx p n (position + 1)"
        by (simp only: scan_row_2x2.simps m) simp
      ultimately show ?thesis using Suc.IH(1) [OF b] by simp
    qed
  next
    case 2
    then have a: "position + width ctx + 1 < 65536" and m: "(position + 1) mod 65536 = position + 1"
      and b: "(position + 1) + n + width ctx + 1 \<le> 65536"
      by simp_all
    from 2(1) have ns: "window_unsafe p position (neighborhood ctx) 0 = 0"
      by (auto split: if_splits)
    then have e: "scan_row_2x2 ctx p (Suc n) position = scan_row_2x2 ctx p n (position + 1)"
      by (simp only: scan_row_2x2.simps m) simp
    with 2(1) have "\<not> fst (scan_row_2x2 ctx p n (position + 1))" by simp
    from Suc.IH(2) [OF this b] show ?case unfolding e by simp
  }
qed

lemma scan_rows_2x2_iff:
  assumes w: "1 \<le> width ctx" "width ctx < 256"
    and "position + n * width ctx + width ctx \<le> 65536"
  shows "scan_rows_2x2 ctx p n position
           \<longleftrightarrow> (\<exists>y<n. \<exists>x<width ctx - 1.
                  window_stuck (width ctx) p (position + y * width ctx + x))"
  using assms(3)
proof (induction n arbitrary: position)
  case 0
  show ?case by simp
next
  case (Suc n)
  from w have W: "nat ((int (width ctx) - 1) mod 65536) = width ctx - 1" by simp
  from Suc.prems w have r: "position + (width ctx - 1) + width ctx + 1 \<le> 65536" by simp
  note row = scan_row_2x2_iff [OF r, of p]
  obtain e position' where sr: "scan_row_2x2 ctx p (width ctx - 1) position = (e, position')"
    by (cases "scan_row_2x2 ctx p (width ctx - 1) position")
  show ?case
  proof (cases e)
    case True
    with sr row(1) obtain x where "x < width ctx - 1" "window_stuck (width ctx) p (position + x)"
      by auto
    then have "\<exists>y<Suc n. \<exists>x<width ctx - 1.
                  window_stuck (width ctx) p (position + y * width ctx + x)"
      by (intro exI [of _ 0]) auto
    with True sr show ?thesis by (simp add: W)
  next
    case False
    with sr row have none: "\<not> (\<exists>x<width ctx - 1. window_stuck (width ctx) p (position + x))"
      and p': "position' = position + (width ctx - 1)"
      by auto
    from p' w Suc.prems have m: "(position' + 1) mod 65536 = position + width ctx"
      and b: "(position + width ctx) + n * width ctx + width ctx \<le> 65536"
      by simp_all
    have "(\<exists>y<Suc n. \<exists>x<width ctx - 1. window_stuck (width ctx) p (position + y * width ctx + x))
          \<longleftrightarrow> (\<exists>y<n. \<exists>x<width ctx - 1.
                 window_stuck (width ctx) p (position + width ctx + y * width ctx + x))"
    proof
      assume "\<exists>y<Suc n. \<exists>x<width ctx - 1. window_stuck (width ctx) p (position + y * width ctx + x)"
      then obtain y x where yx: "y < Suc n" "x < width ctx - 1"
        "window_stuck (width ctx) p (position + y * width ctx + x)" by blast
      with none have "y \<noteq> 0" by (cases y) auto
      then obtain z where "y = Suc z" by (cases y) auto
      with yx show "\<exists>y<n. \<exists>x<width ctx - 1.
                 window_stuck (width ctx) p (position + width ctx + y * width ctx + x)"
        by (intro exI [of _ z] conjI exI [of _ x]) (simp_all add: add.assoc)
    next
      assume "\<exists>y<n. \<exists>x<width ctx - 1.
                 window_stuck (width ctx) p (position + width ctx + y * width ctx + x)"
      then obtain y x where "y < n" "x < width ctx - 1"
        "window_stuck (width ctx) p (position + width ctx + y * width ctx + x)" by blast
      then show "\<exists>y<Suc n. \<exists>x<width ctx - 1.
                  window_stuck (width ctx) p (position + y * width ctx + x)"
        by (intro exI [of _ "Suc y"] conjI exI [of _ x]) (simp_all add: add.assoc)
    qed
    moreover from False sr
    have "scan_row_2x2 ctx p (width ctx - 1) position = (False, position')" by simp
    then have "scan_rows_2x2 ctx p (Suc n) position = scan_rows_2x2 ctx p n (position + width ctx)"
      by (simp only: scan_rows_2x2.simps W prod.case bool.case m)
    ultimately show ?thesis using Suc.IH [OF b] by simp
  qed
qed

lemma check_all_2x2_deadlock_iff:
  assumes wf: "wf_context ctx" and w: "1 \<le> width ctx" and h: "1 \<le> height ctx"
  shows "check_all_2x2_deadlock ctx p
           \<longleftrightarrow> (\<exists>y<height ctx - 1. \<exists>x<width ctx - 1.
                  window_stuck (width ctx) p (y * width ctx + x))"
proof -
  from wf have s: "width ctx < 256" "height ctx < 256" by (simp_all add: wf_context_def)
  from h s have H: "nat ((int (height ctx) - 1) mod 65536) = height ctx - 1" by simp
  have "(height ctx - 1) * width ctx + width ctx = height ctx * width ctx"
    using h by (simp add: algebra_simps)
  moreover have "height ctx * width ctx < 65536" by (rule small_product [OF s(2) s(1)])
  ultimately have b: "0 + (height ctx - 1) * width ctx + width ctx \<le> 65536" by simp
  from scan_rows_2x2_iff [OF w s(1) b, of p] show ?thesis
    by (simp add: check_all_2x2_deadlock_def H)
qed

section \<open>The cells generate\_deadlock\_map clears\<close>

text \<open>
  The cells from which a lone crate can be brought to a goal: a goal cell, and the cell
  next to such a cell \<open>c\<close> in a direction \<open>d\<close> when neither it nor the cell beyond it (where
  the player stands to push the crate back to \<open>c\<close>) is a wall.
\<close>

inductive_set pulled :: "context_t \<Rightarrow> bits \<Rightarrow> bits \<Rightarrow> nat set"
  for ctx :: context_t and ws :: bits and gs :: bits where
  goal: "g < area ctx \<Longrightarrow> get_bit gs g \<Longrightarrow> g \<in> pulled ctx ws gs"
| step: "c \<in> pulled ctx ws gs \<Longrightarrow> d \<in> set (directions ctx)
         \<Longrightarrow> \<not> get_bit ws (pos_add c d) \<Longrightarrow> \<not> get_bit ws (pos_add (pos_add c d) d)
         \<Longrightarrow> pos_add c d \<in> pulled ctx ws gs"

lemma pulled_inner:
  assumes wf: "wf_context ctx" and cw: "closed_walls ctx (walls p)" and g: "goals_off_walls ctx p"
  shows "c \<in> pulled ctx (walls p) (goals p) \<Longrightarrow> inner ctx c"
proof (induction rule: pulled.induct)
  case (goal g')
  with goal_inner [OF wf cw g] show ?case by simp
next
  case (step c d)
  then show ?case by (auto intro: closed_walls_step [OF wf cw])
qed

text \<open>
  The invariant of the expansion: \<open>dl0\<close> is the deadlock bitset before the pass, \<open>cur\<close> the
  cell being expanded and \<open>done\<close> the directions already handled for it. Every cleared
  cell is one of \<open>pulled\<close>, and every cleared cell that does not wait in the queue has its
  neighbours cleared.
\<close>

definition dl_closed :: "bits \<Rightarrow> bits \<Rightarrow> nat \<Rightarrow> int \<Rightarrow> bool" where
  "dl_closed ws dl c d \<longleftrightarrow>
     (\<not> get_bit ws (pos_add c d) \<longrightarrow> \<not> get_bit ws (pos_add (pos_add c d) d)
        \<longrightarrow> \<not> get_bit dl (pos_add c d))"

definition dl_inv ::
  "context_t \<Rightarrow> bits \<Rightarrow> bits \<Rightarrow> bits \<Rightarrow> nat \<Rightarrow> int list \<Rightarrow> dl_state \<Rightarrow> bool" where
  "dl_inv ctx ws gs dl0 cur done s \<longleftrightarrow>
     dl_wf ctx s \<and> dl_front s \<le> length (dl_queue s)
     \<and> (\<forall>x \<in> set (dl_queue s). \<not> get_bit (dl_deadlocks s) x)
     \<and> (\<forall>pos<64 * bitset_size ctx. \<not> get_bit dl0 pos \<longrightarrow> \<not> get_bit (dl_deadlocks s) pos)
     \<and> (\<forall>pos<64 * bitset_size ctx. \<not> get_bit (dl_deadlocks s) pos \<longrightarrow> pos \<in> pulled ctx ws gs)
     \<and> (\<forall>c<64 * bitset_size ctx. \<forall>d \<in> set (directions ctx).
           \<not> get_bit (dl_deadlocks s) c \<longrightarrow> c \<notin> set (drop (dl_front s) (dl_queue s))
           \<longrightarrow> (c = cur \<longrightarrow> d \<in> set done) \<longrightarrow> dl_closed ws (dl_deadlocks s) c d)"

lemma dl_inv_relax:
  assumes wf: "wf_context ctx" and cw: "closed_walls ctx ws"
    and inv: "dl_inv ctx ws gs dl0 cur done s"
    and cur: "inner ctx cur" "cur \<in> set (dl_queue s)"
    and d: "d \<in> set (directions ctx)"
  shows "dl_inv ctx ws gs dl0 cur (done @ [d]) (dl_relax ws cur cst s d)
         \<and> cur \<in> set (dl_queue (dl_relax ws cur cst s d))"
proof -
  let ?N = "64 * bitset_size ctx"
  let ?n = "pos_add cur d"
  from inv have s: "dl_wf ctx s" and f: "dl_front s \<le> length (dl_queue s)"
    and q: "\<forall>x \<in> set (dl_queue s). \<not> get_bit (dl_deadlocks s) x"
    and mono: "\<forall>pos<?N. \<not> get_bit dl0 pos \<longrightarrow> \<not> get_bit (dl_deadlocks s) pos"
    and sound: "\<forall>pos<?N. \<not> get_bit (dl_deadlocks s) pos \<longrightarrow> pos \<in> pulled ctx ws gs"
    and closed: "\<And>c d'. c < ?N \<Longrightarrow> d' \<in> set (directions ctx)
           \<Longrightarrow> \<not> get_bit (dl_deadlocks s) c \<Longrightarrow> c \<notin> set (drop (dl_front s) (dl_queue s))
           \<Longrightarrow> (c = cur \<longrightarrow> d' \<in> set done) \<Longrightarrow> dl_closed ws (dl_deadlocks s) c d'"
    unfolding dl_inv_def by blast+
  from s have len: "length (dl_deadlocks s) = bitset_size ctx" by (simp add: dl_wf_def)
  from cur(2) q have cc: "\<not> get_bit (dl_deadlocks s) cur" by blast
  have cN: "cur < ?N" using cur(1) by (rule inner_in_range [OF wf])
  show ?thesis
  proof (cases "dl_relax ws cur cst s d = s")
    case True
    have "s\<lparr> dl_queue := dl_queue s @ [?n], dl_deadlocks := clear_bit (dl_deadlocks s) ?n,
                   dl_heuristics := (dl_heuristics s)[?n := cst] \<rparr> \<noteq> s"
    proof
      assume "s\<lparr> dl_queue := dl_queue s @ [?n], dl_deadlocks := clear_bit (dl_deadlocks s) ?n,
                   dl_heuristics := (dl_heuristics s)[?n := cst] \<rparr> = s"
      then have "dl_queue (s\<lparr> dl_queue := dl_queue s @ [?n],
                   dl_deadlocks := clear_bit (dl_deadlocks s) ?n,
                   dl_heuristics := (dl_heuristics s)[?n := cst] \<rparr>) = dl_queue s"
        by simp
      then show False by simp
    qed
    with True have "dl_closed ws (dl_deadlocks s) cur d"
      unfolding dl_closed_def dl_relax_def Let_def
      by (auto split: if_splits)
    with closed have "\<And>c d'. c < ?N \<Longrightarrow> d' \<in> set (directions ctx)
           \<Longrightarrow> \<not> get_bit (dl_deadlocks s) c \<Longrightarrow> c \<notin> set (drop (dl_front s) (dl_queue s))
           \<Longrightarrow> (c = cur \<longrightarrow> d' \<in> set (done @ [d])) \<Longrightarrow> dl_closed ws (dl_deadlocks s) c d'"
      by auto
    with s f q mono sound cur(2) show ?thesis unfolding True dl_inv_def by blast
  next
    case False
    let ?dl = "clear_bit (dl_deadlocks s) ?n"
    let ?s' = "s\<lparr> dl_queue := dl_queue s @ [?n], dl_deadlocks := ?dl,
                   dl_heuristics := (dl_heuristics s)[?n := cst] \<rparr>"
    from False have nw: "\<not> get_bit ws ?n" and bw: "\<not> get_bit ws (pos_add ?n d)"
      and e: "dl_relax ws cur cst s d = ?s'"
      by (auto simp add: dl_relax_def Let_def split: if_splits)
    have ni: "inner ctx ?n" using wf cw cur(1) d nw by (rule closed_walls_step)
    have nN: "?n < 64 * length (dl_deadlocks s)" using inner_in_range [OF wf ni] len by simp
    note gc = get_bit_clear [OF nN]
    have w': "dl_wf ctx ?s'" using s ni by (simp add: dl_wf_def)
    have np: "?n \<in> pulled ctx ws gs"
      using sound cN cc d nw bw by (auto intro: pulled.step)
    have c': "dl_closed ws ?dl c d'"
      if "c < ?N" "d' \<in> set (directions ctx)" "\<not> get_bit ?dl c"
        "c \<notin> set (drop (dl_front s) (dl_queue s @ [?n]))" "c = cur \<longrightarrow> d' \<in> set (done @ [d])"
      for c d'
    proof -
      from that(4) f have cn: "c \<noteq> ?n" and cp: "c \<notin> set (drop (dl_front s) (dl_queue s))"
        by auto
      from that(3) cn have cl: "\<not> get_bit (dl_deadlocks s) c" by (simp add: gc)
      show ?thesis
      proof (cases "c = cur \<and> d' = d")
        case True
        then show ?thesis by (simp add: dl_closed_def gc)
      next
        case False
        with that(5) have "c = cur \<longrightarrow> d' \<in> set done" by auto
        from closed [OF that(1,2) cl cp this] show ?thesis
          by (auto simp add: dl_closed_def gc)
      qed
    qed
    have "dl_inv ctx ws gs dl0 cur (done @ [d]) ?s'"
      unfolding dl_inv_def
    proof (intro conjI)
      show "dl_wf ctx ?s'" by (rule w')
      show "dl_front ?s' \<le> length (dl_queue ?s')" using f by simp
      show "\<forall>x \<in> set (dl_queue ?s'). \<not> get_bit (dl_deadlocks ?s') x" using q by (auto simp add: gc)
      show "\<forall>pos<?N. \<not> get_bit dl0 pos \<longrightarrow> \<not> get_bit (dl_deadlocks ?s') pos"
        using mono by (auto simp add: gc)
      show "\<forall>pos<?N. \<not> get_bit (dl_deadlocks ?s') pos \<longrightarrow> pos \<in> pulled ctx ws gs"
        using sound np by (auto simp add: gc)
      show "\<forall>c<?N. \<forall>d' \<in> set (directions ctx).
           \<not> get_bit (dl_deadlocks ?s') c \<longrightarrow> c \<notin> set (drop (dl_front ?s') (dl_queue ?s'))
           \<longrightarrow> (c = cur \<longrightarrow> d' \<in> set (done @ [d])) \<longrightarrow> dl_closed ws (dl_deadlocks ?s') c d'"
        using c' by simp
    qed
    with cur(2) show ?thesis unfolding e by simp
  qed
qed

lemma dl_inv_fold:
  assumes wf: "wf_context ctx" and cw: "closed_walls ctx ws" and cur: "inner ctx cur"
  shows "dl_inv ctx ws gs dl0 cur done s \<Longrightarrow> cur \<in> set (dl_queue s)
         \<Longrightarrow> set ds \<subseteq> set (directions ctx)
         \<Longrightarrow> dl_inv ctx ws gs dl0 cur (done @ ds) (foldl (dl_relax ws cur cst) s ds)"
proof (induction ds arbitrary: s "done")
  case Nil
  then show ?case by simp
next
  case (Cons d ds)
  from Cons.prems(3) have d: "d \<in> set (directions ctx)" and ds: "set ds \<subseteq> set (directions ctx)"
    by simp_all
  from dl_inv_relax [OF wf cw Cons.prems(1) cur Cons.prems(2) d, of cst]
  have "dl_inv ctx ws gs dl0 cur (done @ [d]) (dl_relax ws cur cst s d)"
    "cur \<in> set (dl_queue (dl_relax ws cur cst s d))" by simp_all
  from Cons.IH [OF this ds] show ?case by simp
qed

text \<open>A turn of the loop keeps the invariant with all four directions done.\<close>

lemma dl_inv_step:
  assumes wf: "wf_context ctx" and cw: "closed_walls ctx ws"
    and inv: "dl_inv ctx ws gs dl0 c0 (directions ctx) s"
    and f: "dl_front s < length (dl_queue s)"
  shows "dl_inv ctx ws gs dl0 c0 (directions ctx) (dl_step ctx ws s)"
proof -
  let ?cur = "dl_queue s ! dl_front s"
  let ?cst = "(dl_heuristics s ! ?cur + 1) mod 65536"
  let ?s1 = "s\<lparr> dl_front := dl_front s + 1 \<rparr>"
  from inv have s: "dl_wf ctx s" by (simp add: dl_inv_def)
  from s f have cur: "inner ctx ?cur" by (simp add: dl_wf_def)
  have cq: "?cur \<in> set (dl_queue ?s1)" using f by simp
  have dr: "drop (dl_front s) (dl_queue s) = ?cur # drop (dl_front s + 1) (dl_queue s)"
    using f by (simp add: Cons_nth_drop_Suc)
  have "dl_inv ctx ws gs dl0 ?cur [] ?s1"
    using inv f unfolding dl_inv_def dl_wf_def by (auto simp add: dr)
  from dl_inv_fold [OF wf cw cur this cq subset_refl, of ?cst]
  have "dl_inv ctx ws gs dl0 ?cur (directions ctx) (dl_step ctx ws s)"
    by (simp add: dl_step_def Let_def)
  then show ?thesis unfolding dl_inv_def by blast
qed

text \<open>Between two passes no cell waits: every cleared cell has its neighbours cleared.\<close>

definition dl_maps_inv :: "context_t \<Rightarrow> bits \<Rightarrow> bits \<Rightarrow> bits \<times> nat list \<Rightarrow> bool" where
  "dl_maps_inv ctx ws gs m \<longleftrightarrow>
     length (fst m) = bitset_size ctx \<and> length (snd m) = area ctx
     \<and> (\<forall>pos<64 * bitset_size ctx. \<not> get_bit (fst m) pos \<longrightarrow> pos \<in> pulled ctx ws gs)
     \<and> (\<forall>c<64 * bitset_size ctx. \<forall>d \<in> set (directions ctx).
           \<not> get_bit (fst m) c \<longrightarrow> dl_closed ws (fst m) c d)"

lemma dl_goal_inv:
  assumes wf: "wf_context ctx" and cw: "closed_walls ctx (walls p)" and g: "goals_off_walls ctx p"
    and m: "dl_maps_inv ctx (walls p) (goals p) m"
    and pos: "position < area ctx"
    and r: "dl_goal ctx p m position = Some m'"
  shows "dl_maps_inv ctx (walls p) (goals p) m'"
    and "\<forall>pos<64 * bitset_size ctx. \<not> get_bit (fst m) pos \<longrightarrow> \<not> get_bit (fst m') pos"
    and "get_bit (goals p) position \<longrightarrow> \<not> get_bit (fst m') position"
proof -
  let ?N = "64 * bitset_size ctx"
  let ?ws = "walls p" and ?gs = "goals p"
  let ?dl0 = "clear_bit (fst m) position"
  let ?s = "\<lparr> dl_deadlocks = ?dl0, dl_heuristics = (snd m)[position := 0],
               dl_queue = [position], dl_front = 0 \<rparr>"
  let ?b = "\<lambda>s. dl_front s < length (dl_queue s)"
  let ?P = "dl_inv ctx ?ws ?gs ?dl0 position (directions ctx)"
  have all: "dl_maps_inv ctx ?ws ?gs m'
    \<and> (\<forall>pos<?N. \<not> get_bit (fst m) pos \<longrightarrow> \<not> get_bit (fst m') pos)
    \<and> (get_bit ?gs position \<longrightarrow> \<not> get_bit (fst m') position)"
  proof (cases "get_bit ?gs position")
    case False
    with r m show ?thesis by (simp add: dl_goal_def)
  next
    case True
    from m have len: "length (fst m) = bitset_size ctx" "length (snd m) = area ctx"
      and sound: "\<forall>pos<?N. \<not> get_bit (fst m) pos \<longrightarrow> pos \<in> pulled ctx ?ws ?gs"
      and closed: "\<forall>c<?N. \<forall>d \<in> set (directions ctx).
           \<not> get_bit (fst m) c \<longrightarrow> dl_closed ?ws (fst m) c d"
      by (simp_all add: dl_maps_inv_def)
    from wf pos have pN: "position < ?N" by (simp add: wf_context_def)
    with len have pl: "position < 64 * length (fst m)" by simp
    note gc = get_bit_clear [OF pl]
    have pi: "inner ctx position" using wf cw g pos True by (rule goal_inner)
    have pp: "position \<in> pulled ctx ?ws ?gs" using pos True by (rule pulled.goal)
    have init: "?P ?s"
      unfolding dl_inv_def
    proof (intro conjI)
      show "dl_wf ctx ?s" using len pi by (simp add: dl_wf_def)
      show "dl_front ?s \<le> length (dl_queue ?s)" by simp
      show "\<forall>x \<in> set (dl_queue ?s). \<not> get_bit (dl_deadlocks ?s) x" by (simp add: gc)
      show "\<forall>pos<?N. \<not> get_bit ?dl0 pos \<longrightarrow> \<not> get_bit (dl_deadlocks ?s) pos" by simp
      show "\<forall>pos<?N. \<not> get_bit (dl_deadlocks ?s) pos \<longrightarrow> pos \<in> pulled ctx ?ws ?gs"
        using sound pp by (auto simp add: gc)
      show "\<forall>c<?N. \<forall>d \<in> set (directions ctx).
           \<not> get_bit (dl_deadlocks ?s) c \<longrightarrow> c \<notin> set (drop (dl_front ?s) (dl_queue ?s))
           \<longrightarrow> (c = position \<longrightarrow> d \<in> set (directions ctx)) \<longrightarrow> dl_closed ?ws (dl_deadlocks ?s) c d"
        using closed by (auto simp add: gc dl_closed_def)
    qed
    from r True obtain t where t: "while_option ?b (dl_step ctx ?ws) ?s = Some t"
      and m': "m' = (dl_deadlocks t, dl_heuristics t)"
      by (auto simp add: dl_goal_def)
    have Pt: "?P t"
      by (rule while_option_rule [where P = ?P, OF _ t init]) (rule dl_inv_step [OF wf cw])
    from while_option_stop [OF t] have stop: "\<not> dl_front t < length (dl_queue t)" .
    with Pt have e: "drop (dl_front t) (dl_queue t) = []" by (simp add: dl_inv_def)
    from Pt have 1: "dl_maps_inv ctx ?ws ?gs m'"
      unfolding dl_inv_def dl_maps_inv_def m' e dl_wf_def by simp
    from Pt have 2: "\<forall>pos<?N. \<not> get_bit (fst m) pos \<longrightarrow> \<not> get_bit (fst m') pos"
      unfolding dl_inv_def m' by (auto simp add: gc)
    from Pt pN have 3: "\<not> get_bit (fst m') position"
      unfolding dl_inv_def m' by (auto simp add: gc)
    from 1 2 3 show ?thesis by blast
  qed
  from all show "dl_maps_inv ctx ?ws ?gs m'" by blast
  from all show "\<forall>pos<?N. \<not> get_bit (fst m) pos \<longrightarrow> \<not> get_bit (fst m') pos" by blast
  from all show "get_bit ?gs position \<longrightarrow> \<not> get_bit (fst m') position" by blast
qed

lemma dl_goals_inv:
  assumes wf: "wf_context ctx" and cw: "closed_walls ctx (walls p)" and g: "goals_off_walls ctx p"
  shows "dl_maps_inv ctx (walls p) (goals p) m
     \<Longrightarrow> \<forall>position \<in> set positions. position < area ctx
     \<Longrightarrow> dl_goals ctx p positions m = Some m'
     \<Longrightarrow> dl_maps_inv ctx (walls p) (goals p) m'
         \<and> (\<forall>pos<64 * bitset_size ctx. \<not> get_bit (fst m) pos \<longrightarrow> \<not> get_bit (fst m') pos)
         \<and> (\<forall>position \<in> set positions. get_bit (goals p) position \<longrightarrow> \<not> get_bit (fst m') position)"
proof (induction positions arbitrary: m)
  case Nil
  then show ?case by simp
next
  case (Cons position positions)
  from Cons.prems(2) have pos: "position < area ctx"
    and rest: "\<forall>position \<in> set positions. position < area ctx" by simp_all
  from Cons.prems(3) obtain m1 where m1: "dl_goal ctx p m position = Some m1"
    and r: "dl_goals ctx p positions m1 = Some m'"
    by (auto split: option.splits)
  note one = dl_goal_inv [OF wf cw g Cons.prems(1) pos m1]
  from Cons.IH [OF one(1) rest r] have ih: "dl_maps_inv ctx (walls p) (goals p) m'"
    "\<forall>pos<64 * bitset_size ctx. \<not> get_bit (fst m1) pos \<longrightarrow> \<not> get_bit (fst m') pos"
    "\<forall>position \<in> set positions. get_bit (goals p) position \<longrightarrow> \<not> get_bit (fst m') position"
    by blast+
  from wf pos have "position < 64 * bitset_size ctx" by (simp add: wf_context_def)
  with one(2,3) ih show ?case by auto
qed

text \<open>The deadlock map: the cleared cells are exactly the cells of \<open>pulled\<close>.\<close>

lemma deadlock_maps_pulled:
  assumes wf: "wf_context ctx" and cw: "closed_walls ctx (walls p)" and g: "goals_off_walls ctx p"
    and m: "deadlock_maps ctx p = Some m" and pos: "pos < 64 * bitset_size ctx"
  shows "\<not> get_bit (fst m) pos \<longleftrightarrow> pos \<in> pulled ctx (walls p) (goals p)"
proof -
  let ?N = "64 * bitset_size ctx"
  let ?m0 = "(bitset_ones (bitset_size ctx), replicate (area ctx) (area ctx))"
  have "dl_maps_inv ctx (walls p) (goals p) ?m0"
    by (simp add: dl_maps_inv_def get_bit_ones)
  from dl_goals_inv [OF wf cw g this, of "[0..<area ctx]" m] m
  have inv: "dl_maps_inv ctx (walls p) (goals p) m"
    and goals: "\<forall>position<area ctx. get_bit (goals p) position \<longrightarrow> \<not> get_bit (fst m) position"
    by (simp_all add: deadlock_maps_def)
  show ?thesis
  proof
    assume "\<not> get_bit (fst m) pos"
    with inv pos show "pos \<in> pulled ctx (walls p) (goals p)" by (simp add: dl_maps_inv_def)
  next
    assume "pos \<in> pulled ctx (walls p) (goals p)"
    then show "\<not> get_bit (fst m) pos"
    proof (induction rule: pulled.induct)
      case (goal g')
      with goals show ?case by simp
    next
      case (step c d)
      from step.hyps(1) have "inner ctx c" by (rule pulled_inner [OF wf cw g])
      then have "c < ?N" by (rule inner_in_range [OF wf])
      with inv step.hyps(2) step.IH have "dl_closed (walls p) (fst m) c d"
        by (simp add: dl_maps_inv_def)
      with step.hyps(3,4) show ?case by (simp add: dl_closed_def)
    qed
  qed
qed

text \<open>
  The same set stated on the grid alone, with the four directions written out: a crate on
  the left neighbour \<open>c - 1\<close> of \<open>c\<close> is pushed to \<open>c\<close> by a player on \<open>c - 2\<close>, and likewise
  for the right, lower and upper neighbour. The goals are the set bits of \<open>gs\<close> below \<open>n\<close>.
\<close>

inductive_set pullable :: "nat \<Rightarrow> nat \<Rightarrow> bits \<Rightarrow> bits \<Rightarrow> nat set"
  for w :: nat and n :: nat and ws :: bits and gs :: bits where
  goal: "g < n \<Longrightarrow> get_bit gs g \<Longrightarrow> g \<in> pullable w n ws gs"
| left: "c \<in> pullable w n ws gs \<Longrightarrow> 2 \<le> c \<Longrightarrow> \<not> get_bit ws (c - 1) \<Longrightarrow> \<not> get_bit ws (c - 2)
         \<Longrightarrow> c - 1 \<in> pullable w n ws gs"
| right: "c \<in> pullable w n ws gs \<Longrightarrow> \<not> get_bit ws (c + 1) \<Longrightarrow> \<not> get_bit ws (c + 2)
         \<Longrightarrow> c + 1 \<in> pullable w n ws gs"
| down: "c \<in> pullable w n ws gs \<Longrightarrow> \<not> get_bit ws (c + w) \<Longrightarrow> \<not> get_bit ws (c + 2 * w)
         \<Longrightarrow> c + w \<in> pullable w n ws gs"
| up: "c \<in> pullable w n ws gs \<Longrightarrow> 2 * w \<le> c \<Longrightarrow> \<not> get_bit ws (c - w)
         \<Longrightarrow> \<not> get_bit ws (c - 2 * w) \<Longrightarrow> c - w \<in> pullable w n ws gs"

lemma pos_add_twice:
  assumes wf: "wf_context ctx" and cw: "closed_walls ctx ws" and c: "inner ctx c"
    and d: "d \<in> set (directions ctx)" and nw: "\<not> get_bit ws (pos_add c d)"
  shows "d = - 1 \<Longrightarrow> pos_add c d = c - 1 \<and> pos_add (pos_add c d) d = c - 2 \<and> 2 \<le> c"
    and "d = 1 \<Longrightarrow> pos_add c d = c + 1 \<and> pos_add (pos_add c d) d = c + 2"
    and "d = int (width ctx)
         \<Longrightarrow> pos_add c d = c + width ctx \<and> pos_add (pos_add c d) d = c + 2 * width ctx"
    and "d = - int (width ctx)
         \<Longrightarrow> pos_add c d = c - width ctx \<and> pos_add (pos_add c d) d = c - 2 * width ctx
             \<and> 2 * width ctx \<le> c"
proof -
  have n: "inner ctx (pos_add c d)" using wf cw c d nw by (rule closed_walls_step)
  note pc = pos_add_directions [OF wf c]
  note pn = pos_add_directions [OF wf n]
  show "d = - 1 \<Longrightarrow> pos_add c d = c - 1 \<and> pos_add (pos_add c d) d = c - 2 \<and> 2 \<le> c"
    using pc(1,5) pn(1,5) by auto
  show "d = 1 \<Longrightarrow> pos_add c d = c + 1 \<and> pos_add (pos_add c d) d = c + 2"
    using pc(2) pn(2) by auto
  show "d = int (width ctx)
         \<Longrightarrow> pos_add c d = c + width ctx \<and> pos_add (pos_add c d) d = c + 2 * width ctx"
    using pc(3) pn(3) by auto
  show "d = - int (width ctx)
         \<Longrightarrow> pos_add c d = c - width ctx \<and> pos_add (pos_add c d) d = c - 2 * width ctx
             \<and> 2 * width ctx \<le> c"
    using pc(4,6) pn(4,6) by auto
qed

lemma pulled_pullable:
  assumes wf: "wf_context ctx" and cw: "closed_walls ctx (walls p)" and g: "goals_off_walls ctx p"
  shows "pulled ctx (walls p) (goals p) = pullable (width ctx) (area ctx) (walls p) (goals p)"
proof (intro set_eqI iffI)
  fix x assume "x \<in> pulled ctx (walls p) (goals p)"
  then show "x \<in> pullable (width ctx) (area ctx) (walls p) (goals p)"
  proof (induction rule: pulled.induct)
    case (goal g')
    then show ?case by (rule pullable.goal)
  next
    case (step c d)
    from step.hyps(1) have ic: "inner ctx c" by (rule pulled_inner [OF wf cw g])
    note tw = pos_add_twice [OF wf cw ic step.hyps(2,3)]
    from step.hyps(2) have "d = - 1 \<or> d = 1 \<or> d = int (width ctx) \<or> d = - int (width ctx)"
      by (auto simp add: directions_def)
    then show ?case
    proof (elim disjE)
      assume d: "d = - 1"
      from tw(1) [OF d] have t: "pos_add c d = c - 1" "pos_add (pos_add c d) d = c - 2" "2 \<le> c"
        by blast+
      from step.hyps(3) have a: "\<not> get_bit (walls p) (c - 1)" unfolding t(1) .
      from step.hyps(4) have b: "\<not> get_bit (walls p) (c - 2)" unfolding t(2) .
      from pullable.left [OF step.IH t(3) a b] show ?thesis unfolding t(1) .
    next
      assume d: "d = 1"
      from tw(2) [OF d] have t: "pos_add c d = c + 1" "pos_add (pos_add c d) d = c + 2"
        by blast+
      from step.hyps(3) have a: "\<not> get_bit (walls p) (c + 1)" unfolding t(1) .
      from step.hyps(4) have b: "\<not> get_bit (walls p) (c + 2)" unfolding t(2) .
      from pullable.right [OF step.IH a b] show ?thesis unfolding t(1) .
    next
      assume d: "d = int (width ctx)"
      from tw(3) [OF d] have t: "pos_add c d = c + width ctx"
        "pos_add (pos_add c d) d = c + 2 * width ctx"
        by blast+
      from step.hyps(3) have a: "\<not> get_bit (walls p) (c + width ctx)" unfolding t(1) .
      from step.hyps(4) have b: "\<not> get_bit (walls p) (c + 2 * width ctx)" unfolding t(2) .
      from pullable.down [OF step.IH a b] show ?thesis unfolding t(1) .
    next
      assume d: "d = - int (width ctx)"
      from tw(4) [OF d] have t: "pos_add c d = c - width ctx"
        "pos_add (pos_add c d) d = c - 2 * width ctx" "2 * width ctx \<le> c"
        by blast+
      from step.hyps(3) have a: "\<not> get_bit (walls p) (c - width ctx)" unfolding t(1) .
      from step.hyps(4) have b: "\<not> get_bit (walls p) (c - 2 * width ctx)" unfolding t(2) .
      from pullable.up [OF step.IH t(3) a b] show ?thesis unfolding t(1) .
    qed
  qed
next
  fix x assume "x \<in> pullable (width ctx) (area ctx) (walls p) (goals p)"
  then show "x \<in> pulled ctx (walls p) (goals p)"
  proof (induction rule: pullable.induct)
    case (goal g')
    then show ?case by (rule pulled.goal)
  next
    case (left c)
    from left.IH have ic: "inner ctx c" by (rule pulled_inner [OF wf cw g])
    have d: "- 1 \<in> set (directions ctx)" by (simp add: directions_def)
    have e: "pos_add c (- 1) = c - 1" by (rule pos_add_directions(1) [OF wf ic])
    from left.hyps(3) have nw: "\<not> get_bit (walls p) (pos_add c (- 1))" unfolding e .
    from pos_add_twice(1) [OF wf cw ic d nw refl]
    have ee: "pos_add (pos_add c (- 1)) (- 1) = c - 2" by blast
    from left.hyps(4) have "\<not> get_bit (walls p) (pos_add (pos_add c (- 1)) (- 1))"
      unfolding ee .
    from pulled.step [OF left.IH d nw this] show ?case unfolding e .
  next
    case (right c)
    from right.IH have ic: "inner ctx c" by (rule pulled_inner [OF wf cw g])
    have d: "1 \<in> set (directions ctx)" by (simp add: directions_def)
    have e: "pos_add c 1 = c + 1" by (rule pos_add_directions(2) [OF wf ic])
    from right.hyps(2) have nw: "\<not> get_bit (walls p) (pos_add c 1)" unfolding e .
    from pos_add_twice(2) [OF wf cw ic d nw refl]
    have ee: "pos_add (pos_add c 1) 1 = c + 2" by blast
    from right.hyps(3) have "\<not> get_bit (walls p) (pos_add (pos_add c 1) 1)"
      unfolding ee .
    from pulled.step [OF right.IH d nw this] show ?case unfolding e .
  next
    case (down c)
    from down.IH have ic: "inner ctx c" by (rule pulled_inner [OF wf cw g])
    have d: "int (width ctx) \<in> set (directions ctx)" by (simp add: directions_def)
    have e: "pos_add c (int (width ctx)) = c + width ctx" by (rule pos_add_directions(3) [OF wf ic])
    from down.hyps(2) have nw: "\<not> get_bit (walls p) (pos_add c (int (width ctx)))" unfolding e .
    from pos_add_twice(3) [OF wf cw ic d nw refl]
    have ee: "pos_add (pos_add c (int (width ctx))) (int (width ctx)) = c + 2 * width ctx" by blast
    from down.hyps(3) have "\<not> get_bit (walls p) (pos_add (pos_add c (int (width ctx))) (int (width ctx)))"
      unfolding ee .
    from pulled.step [OF down.IH d nw this] show ?case unfolding e .
  next
    case (up c)
    from up.IH have ic: "inner ctx c" by (rule pulled_inner [OF wf cw g])
    have d: "- int (width ctx) \<in> set (directions ctx)" by (simp add: directions_def)
    have e: "pos_add c (- int (width ctx)) = c - width ctx"
      by (rule pos_add_directions(4) [OF wf ic])
    from up.hyps(3) have nw: "\<not> get_bit (walls p) (pos_add c (- int (width ctx)))" unfolding e .
    from pos_add_twice(4) [OF wf cw ic d nw refl]
    have ee: "pos_add (pos_add c (- int (width ctx))) (- int (width ctx)) = c - 2 * width ctx" by blast
    from up.hyps(4) have "\<not> get_bit (walls p) (pos_add (pos_add c (- int (width ctx))) (- int (width ctx)))"
      unfolding ee .
    from pulled.step [OF up.IH d nw this] show ?case unfolding e .
  qed
qed

text \<open>The deadlock cells of the computed map are the cells that are not \<open>pullable\<close>.\<close>

lemma deadlock_maps_pullable:
  assumes "wf_context ctx" and "closed_walls ctx (walls p)" and "goals_off_walls ctx p"
    and "deadlock_maps ctx p = Some m" and "pos < 64 * bitset_size ctx"
  shows "get_bit (fst m) pos
           \<longleftrightarrow> pos \<notin> pullable (width ctx) (area ctx) (walls p) (goals p)"
  using deadlock_maps_pulled [OF assms] unfolding pulled_pullable [OF assms(1-3)] by blast

section \<open>What parse\_problem stores and returns\<close>

lemma filter_subset_same_length:
  assumes "\<forall>x \<in> set xs. P x \<longrightarrow> Q x" "length (filter P xs) = length (filter Q xs)"
  shows "\<forall>x \<in> set xs. Q x \<longrightarrow> P x"
  using assms
proof (induction xs)
  case Nil
  then show ?case by simp
next
  case (Cons x xs)
  have le: "length (filter P xs) \<le> length (filter Q xs)"
  proof -
    have "filter P xs = filter P (filter Q xs)"
      using Cons.prems(1) by (auto simp add: filter_filter intro!: filter_cong)
    then have "length (filter P xs) = length (filter P (filter Q xs))" by simp
    also have "\<dots> \<le> length (filter Q xs)" by (rule length_filter_le)
    finally show ?thesis .
  qed
  have sub: "\<forall>x \<in> set xs. P x \<longrightarrow> Q x" using Cons.prems(1) by simp
  show ?case
  proof (cases "Q x")
    case True
    show ?thesis
    proof (cases "P x")
      case True
      with \<open>Q x\<close> Cons.prems(2) have "length (filter P xs) = length (filter Q xs)" by simp
      from Cons.IH [OF sub this] True show ?thesis by simp
    next
      case False
      with \<open>Q x\<close> Cons.prems(2) le show ?thesis by simp
    qed
  next
    case False
    with Cons.prems(1) have "\<not> P x" by simp
    with False Cons.prems(2) have "length (filter P xs) = length (filter Q xs)" by simp
    from Cons.IH [OF sub this] False show ?thesis by simp
  qed
qed

lemma crate_off_goal_iff:
  assumes "length (filter tile_goal tiles) = length (filter tile_crate tiles)"
  shows "(\<exists>k<length tiles. tile_crate (tiles ! k) \<noteq> tile_goal (tiles ! k))
         \<longleftrightarrow> (\<exists>k<length tiles. tile_crate (tiles ! k) \<and> \<not> tile_goal (tiles ! k))"
proof
  assume "\<exists>k<length tiles. tile_crate (tiles ! k) \<noteq> tile_goal (tiles ! k)"
  then obtain k where k: "k < length tiles" "tile_crate (tiles ! k) \<noteq> tile_goal (tiles ! k)"
    by blast
  show "\<exists>k<length tiles. tile_crate (tiles ! k) \<and> \<not> tile_goal (tiles ! k)"
  proof (rule ccontr)
    assume "\<not> (\<exists>k<length tiles. tile_crate (tiles ! k) \<and> \<not> tile_goal (tiles ! k))"
    then have "\<forall>x \<in> set tiles. tile_crate x \<longrightarrow> tile_goal x"
      by (auto simp add: in_set_conv_nth)
    from filter_subset_same_length [OF this assms [symmetric]]
    have "\<forall>x \<in> set tiles. tile_goal x \<longrightarrow> tile_crate x" .
    moreover note \<open>\<forall>x \<in> set tiles. tile_crate x \<longrightarrow> tile_goal x\<close>
    moreover have "tiles ! k \<in> set tiles" using k(1) by (rule nth_mem)
    ultimately show False using k(2) by blast
  qed
next
  assume "\<exists>k<length tiles. tile_crate (tiles ! k) \<and> \<not> tile_goal (tiles ! k)"
  then show "\<exists>k<length tiles. tile_crate (tiles ! k) \<noteq> tile_goal (tiles ! k)" by blast
qed

lemma suffix_tiles_differ:
  assumes wf: "wf_context ctx"
  shows "\<not> bitset_equals (ps_crates (suffix_tiles ctx p level_str))
             (ps_goals (suffix_tiles ctx p level_str)) (bitset_size ctx)
         \<longleftrightarrow> (\<exists>k<length (level_tiles ctx level_str).
               tile_crate (level_tiles ctx level_str ! k) \<noteq> tile_goal (level_tiles ctx level_str ! k))"
proof
  let ?st = "suffix_tiles ctx p level_str"
  let ?LT = "level_tiles ctx level_str"
  assume "\<not> bitset_equals (ps_crates ?st) (ps_goals ?st) (bitset_size ctx)"
  then obtain pos where pos: "pos < 64 * bitset_size ctx"
    "get_bit (ps_crates ?st) pos \<noteq> get_bit (ps_goals ?st) pos"
    by (auto simp add: bitset_equals_iff)
  have "pos \<in> cell_position ctx ` {..<length ?LT}"
    using suffix_tiles_elsewhere(2,3) [OF wf pos(1), of level_str p] pos(2) by blast
  then obtain k where k: "k < length ?LT" "pos = cell_position ctx k" by auto
  with suffix_tiles_cell(2,3) [OF wf k(1), of p] pos(2)
  show "\<exists>k<length ?LT. tile_crate (?LT ! k) \<noteq> tile_goal (?LT ! k)" by auto
next
  let ?st = "suffix_tiles ctx p level_str"
  let ?LT = "level_tiles ctx level_str"
  assume "\<exists>k<length ?LT. tile_crate (?LT ! k) \<noteq> tile_goal (?LT ! k)"
  then obtain k where k: "k < length ?LT" "tile_crate (?LT ! k) \<noteq> tile_goal (?LT ! k)" by blast
  from k(1) length_level_tiles_le [of ctx level_str]
  have "k < (width ctx - 2) * (height ctx - 2)" by simp
  from cell_position_less [OF this] wf have r: "cell_position ctx k < 64 * bitset_size ctx"
    by (simp add: wf_context_def)
  from suffix_tiles_cell(2,3) [OF wf k(1), of p] k(2)
  have "get_bit (ps_crates ?st) (cell_position ctx k) \<noteq> get_bit (ps_goals ?st) (cell_position ctx k)"
    by simp
  with r show "\<not> bitset_equals (ps_crates ?st) (ps_goals ?st) (bitset_size ctx)"
    by (auto simp add: bitset_equals_iff)
qed


text \<open>The player is put on the cell of the last player tile.\<close>

lemma player_after_last:
  "j < k \<Longrightarrow> tile_player (T ! j) \<Longrightarrow> \<forall>i<k. j < i \<longrightarrow> \<not> tile_player (T ! i)
   \<Longrightarrow> player_after ctx player0 T k = cell_position ctx j"
proof (induction k)
  case 0
  then show ?case by simp
next
  case (Suc k)
  show ?case
  proof (cases "j = k")
    case True
    with Suc.prems(2) show ?thesis by (simp add: player_after_Suc)
  next
    case False
    with Suc.prems(1) have jk: "j < k" by simp
    with Suc.prems(3) have "\<not> tile_player (T ! k)" by simp
    moreover from Suc.prems(3) have "\<forall>i<k. j < i \<longrightarrow> \<not> tile_player (T ! i)" by simp
    ultimately show ?thesis using Suc.IH [OF jk Suc.prems(2)] by (simp add: player_after_Suc)
  qed
qed

lemma player_after_none:
  "\<forall>j<k. \<not> tile_player (T ! j) \<Longrightarrow> player_after ctx player0 T k = player0"
  by (induction k) (simp_all add: player_after_Suc player_after_def)

lemma suffix_tiles_player_last:
  assumes wf: "wf_context ctx"
  shows "k < length (level_tiles ctx level_str) \<Longrightarrow> tile_player (level_tiles ctx level_str ! k)
         \<Longrightarrow> \<forall>j<length (level_tiles ctx level_str). k < j \<longrightarrow> \<not> tile_player (level_tiles ctx level_str ! j)
         \<Longrightarrow> ps_player (suffix_tiles ctx p level_str) = cell_position ctx k"
    and "\<forall>j<length (level_tiles ctx level_str). \<not> tile_player (level_tiles ctx level_str ! j)
         \<Longrightarrow> ps_player (suffix_tiles ctx p level_str) = player p"
proof -
  let ?LT = "level_tiles ctx level_str"
  let ?T = "string_tiles level_str"
  from suffix_tiles_parsed [OF wf, of level_str p]
  have pl: "ps_player (suffix_tiles ctx p level_str) = player_after ctx (player p) ?T (length ?LT)"
    by (simp add: parsed_def)
  show "ps_player (suffix_tiles ctx p level_str) = cell_position ctx k"
    if "k < length ?LT" "tile_player (?LT ! k)" "\<forall>j<length ?LT. k < j \<longrightarrow> \<not> tile_player (?LT ! j)"
    unfolding pl using that by (intro player_after_last) (simp_all add: level_tiles_nth)
  show "ps_player (suffix_tiles ctx p level_str) = player p"
    if "\<forall>j<length ?LT. \<not> tile_player (?LT ! j)"
    unfolding pl using that by (intro player_after_none) (simp add: level_tiles_nth)
qed

text \<open>The result of \<open>parse_problem\<close> on a string of fewer than \<open>2^32\<close> characters.\<close>

lemma parse_problem_result:
  assumes wf: "wf_context ctx" and len: "strlen level_str < 4294967296"
  shows "\<exists>p'. parse_problem ctx p level_str = Some (p', compilable p')
     \<and> walls p' = ps_walls (suffix_tiles ctx p level_str)
     \<and> goals p' = ps_goals (suffix_tiles ctx p level_str)
     \<and> crates p' = ps_crates (suffix_tiles ctx p level_str)
     \<and> player p' = ps_player (suffix_tiles ctx p level_str)
     \<and> goal_count p' = ps_goal_count (suffix_tiles ctx p level_str)
     \<and> compilable p'
         = (ps_player_count (suffix_tiles ctx p level_str) = 1
            \<and> ps_goal_count (suffix_tiles ctx p level_str) = ps_crate_count (suffix_tiles ctx p level_str)
            \<and> \<not> bitset_equals (crates p') (goals p') (bitset_size ctx))
     \<and> potentially_solvable p'
         = (compilable p' \<and> \<not> check_all_2x2_deadlock ctx p'
            \<and> \<not> bitset_covers_any (crates p') (deadlocks p') (bitset_size ctx)
            \<and> check_reachability ctx (crates p') (goals p') (walls p') (player p') = Some True)
     \<and> (compilable p' \<longrightarrow> wf_problem ctx p')
     \<and> (compilable p' \<and> \<not> check_all_2x2_deadlock ctx p'
          \<longrightarrow> deadlock_maps ctx p' = Some (deadlocks p', heuristics p'))"
  unfolding parse_problem_suffix [OF len] by (rule suffix_problem_result [OF wf])

section \<open>C8: the cells parse\_problem fills\<close>

text \<open>
  C8. On a level string of fewer than \<open>2^32\<close> characters before its first NUL (the read
  index is an \<open>unsigned int\<close>), \<open>parse_problem\<close> returns, and the level it has stored is
  this: the tile characters of the string before its first NUL (every other character is
  skipped), as many as there are interior cells, fill the interior cells in row-major
  order, each cell taking the wall, goal and crate its tile stands for; every other
  position of the three bitsets (the outer ring, the interior cells after the last tile,
  the padding) is a wall without goal or crate; the player stands on the cell of the last
  player tile, and is left as it was if there is none.
\<close>

theorem parse_problem_fills_interior:
  assumes "ctx = create_context w h capacity"
    and "length (takeWhile (\<lambda>c. c \<noteq> CHR 0x00) level_str) < 2 ^ 32"
    and "tiles = take ((width ctx - 2) * (height ctx - 2))
                   (filter is_tile (takeWhile (\<lambda>c. c \<noteq> CHR 0x00) level_str))"
  shows "\<exists>p' r. parse_problem ctx p level_str = Some (p', r)
     \<and> (\<forall>k<length tiles.
           get_bit (walls p') (cell_position ctx k) = tile_wall (tiles ! k)
           \<and> get_bit (goals p') (cell_position ctx k) = tile_goal (tiles ! k)
           \<and> get_bit (crates p') (cell_position ctx k) = tile_crate (tiles ! k))
     \<and> (\<forall>pos<64 * bitset_size ctx. pos \<notin> cell_position ctx ` {..<length tiles}
           \<longrightarrow> get_bit (walls p') pos \<and> \<not> get_bit (goals p') pos \<and> \<not> get_bit (crates p') pos)
     \<and> (\<forall>k<length tiles. tile_player (tiles ! k)
           \<longrightarrow> (\<forall>j<length tiles. k < j \<longrightarrow> \<not> tile_player (tiles ! j))
           \<longrightarrow> player p' = cell_position ctx k)
     \<and> ((\<forall>k<length tiles. \<not> tile_player (tiles ! k)) \<longrightarrow> player p' = player p)"
proof -
  have wf: "wf_context ctx" unfolding assms(1) by (rule wf_create_context)
  have len: "strlen level_str < 4294967296" using assms(2) by (simp add: strlen_def)
  have t: "tiles = level_tiles ctx level_str"
    by (simp add: assms(3) level_tiles_def string_tiles_def)
  from parse_problem_result [OF wf len, of p] obtain p'
    where p': "parse_problem ctx p level_str = Some (p', compilable p')"
      "walls p' = ps_walls (suffix_tiles ctx p level_str)"
      "goals p' = ps_goals (suffix_tiles ctx p level_str)"
      "crates p' = ps_crates (suffix_tiles ctx p level_str)"
      "player p' = ps_player (suffix_tiles ctx p level_str)"
    by blast
  have a: "\<forall>k<length tiles.
           get_bit (walls p') (cell_position ctx k) = tile_wall (tiles ! k)
           \<and> get_bit (goals p') (cell_position ctx k) = tile_goal (tiles ! k)
           \<and> get_bit (crates p') (cell_position ctx k) = tile_crate (tiles ! k)"
    unfolding t p'(2-4) using suffix_tiles_cell [OF wf, of _ level_str p] by blast
  have b: "\<forall>pos<64 * bitset_size ctx. pos \<notin> cell_position ctx ` {..<length tiles}
           \<longrightarrow> get_bit (walls p') pos \<and> \<not> get_bit (goals p') pos \<and> \<not> get_bit (crates p') pos"
    unfolding t p'(2-4) using suffix_tiles_elsewhere [OF wf, of _ level_str p] by blast
  have c: "\<forall>k<length tiles. tile_player (tiles ! k)
           \<longrightarrow> (\<forall>j<length tiles. k < j \<longrightarrow> \<not> tile_player (tiles ! j))
           \<longrightarrow> player p' = cell_position ctx k"
    unfolding t p'(5) using suffix_tiles_player_last(1) [OF wf, of _ level_str p] by blast
  have d: "(\<forall>k<length tiles. \<not> tile_player (tiles ! k)) \<longrightarrow> player p' = player p"
    unfolding t p'(5) using suffix_tiles_player_last(2) [OF wf, of level_str p] by blast
  from p'(1) a b c d show ?thesis by blast
qed

theorem parse_problem_fills_interior_witness:
  "ctx_row3 = create_context 3 1 10
   \<and> length (takeWhile (\<lambda>c. c \<noteq> CHR 0x00) ''A 1x0'') < (2::nat) ^ 32
   \<and> ''A10'' = take ((width ctx_row3 - 2) * (height ctx_row3 - 2))
                   (filter is_tile (takeWhile (\<lambda>c. c \<noteq> CHR 0x00) ''A 1x0''))
   \<and> (\<exists>p' r. parse_problem ctx_row3 (allocate_problem ctx_row3) ''A 1x0'' = Some (p', r)
     \<and> (\<forall>k<length ''A10''.
           get_bit (walls p') (cell_position ctx_row3 k) = tile_wall (''A10'' ! k)
           \<and> get_bit (goals p') (cell_position ctx_row3 k) = tile_goal (''A10'' ! k)
           \<and> get_bit (crates p') (cell_position ctx_row3 k) = tile_crate (''A10'' ! k))
     \<and> (\<forall>pos<64 * bitset_size ctx_row3. pos \<notin> cell_position ctx_row3 ` {..<length ''A10''}
           \<longrightarrow> get_bit (walls p') pos \<and> \<not> get_bit (goals p') pos \<and> \<not> get_bit (crates p') pos)
     \<and> player p' = cell_position ctx_row3 0)"
proof -
  have l: "length (takeWhile (\<lambda>c. c \<noteq> CHR 0x00) ''A 1x0'') < (2::nat) ^ 32" by simp
  have t: "''A10'' = take ((width ctx_row3 - 2) * (height ctx_row3 - 2))
                   (filter is_tile (takeWhile (\<lambda>c. c \<noteq> CHR 0x00) ''A 1x0''))"
    by (simp add: ctx_row3_eq is_tile_def)
  have pl: "tile_player (''A10'' ! 0)" "\<not> tile_player (''A10'' ! 1)" "\<not> tile_player (''A10'' ! 2)"
    by (simp_all add: tile_player_def)
  have "\<forall>j<length ''A10''. 0 < j \<longrightarrow> \<not> tile_player (''A10'' ! j)"
  proof (intro allI impI)
    fix j :: nat assume "j < length ''A10''" "0 < j"
    then have "j = 1 \<or> j = 2" by auto
    with pl show "\<not> tile_player (''A10'' ! j)" by auto
  qed
  with parse_problem_fills_interior [OF ctx_row3_def l t, of "allocate_problem ctx_row3"] pl(1)
  obtain p' r where "parse_problem ctx_row3 (allocate_problem ctx_row3) ''A 1x0'' = Some (p', r)"
    "\<forall>k<length ''A10''.
           get_bit (walls p') (cell_position ctx_row3 k) = tile_wall (''A10'' ! k)
           \<and> get_bit (goals p') (cell_position ctx_row3 k) = tile_goal (''A10'' ! k)
           \<and> get_bit (crates p') (cell_position ctx_row3 k) = tile_crate (''A10'' ! k)"
    "\<forall>pos<64 * bitset_size ctx_row3. pos \<notin> cell_position ctx_row3 ` {..<length ''A10''}
           \<longrightarrow> get_bit (walls p') pos \<and> \<not> get_bit (goals p') pos \<and> \<not> get_bit (crates p') pos"
    "player p' = cell_position ctx_row3 0"
    by auto
  with l t show ?thesis unfolding ctx_row3_def [symmetric] using ctx_row3_def by blast
qed

section \<open>C4: the return value of parse\_problem\<close>

text \<open>
  C4. On a level string of fewer than \<open>2^32\<close> characters before its first NUL,
  \<open>parse_problem\<close> returns the \<open>compilable\<close> flag it has stored, whatever
  \<open>potentially_solvable\<close> is, and the flag is true exactly when the tiles placed hold one
  player, as many goals as crates, and a crate that is not on a goal (which, the numbers
  being equal, is to say that the crates bitset differs from the goals bitset).
\<close>

theorem parse_problem_compilable:
  assumes "ctx = create_context w h capacity"
    and "length (takeWhile (\<lambda>c. c \<noteq> CHR 0x00) level_str) < 2 ^ 32"
    and "tiles = take ((width ctx - 2) * (height ctx - 2))
                   (filter is_tile (takeWhile (\<lambda>c. c \<noteq> CHR 0x00) level_str))"
  shows "\<exists>p'. parse_problem ctx p level_str = Some (p', compilable p')
     \<and> (compilable p' \<longleftrightarrow>
          length (filter tile_player tiles) = 1
          \<and> length (filter tile_goal tiles) = length (filter tile_crate tiles)
          \<and> (\<exists>k<length tiles. tile_crate (tiles ! k) \<and> \<not> tile_goal (tiles ! k)))
     \<and> (compilable p' \<longleftrightarrow>
          length (filter tile_player tiles) = 1
          \<and> length (filter tile_goal tiles) = length (filter tile_crate tiles)
          \<and> (\<exists>pos<64 * bitset_size ctx. get_bit (crates p') pos \<noteq> get_bit (goals p') pos))"
proof -
  have wf: "wf_context ctx" unfolding assms(1) by (rule wf_create_context)
  have len: "strlen level_str < 4294967296" using assms(2) by (simp add: strlen_def)
  have t: "tiles = level_tiles ctx level_str"
    by (simp add: assms(3) level_tiles_def string_tiles_def)
  let ?st = "suffix_tiles ctx p level_str"
  from parse_problem_result [OF wf len, of p] obtain p'
    where p': "parse_problem ctx p level_str = Some (p', compilable p')"
      "goals p' = ps_goals ?st" "crates p' = ps_crates ?st"
      "compilable p' = (ps_player_count ?st = 1 \<and> ps_goal_count ?st = ps_crate_count ?st
            \<and> \<not> bitset_equals (crates p') (goals p') (bitset_size ctx))"
    by blast
  have c: "compilable p' \<longleftrightarrow>
          length (filter tile_player tiles) = 1
          \<and> length (filter tile_goal tiles) = length (filter tile_crate tiles)
          \<and> \<not> bitset_equals (crates p') (goals p') (bitset_size ctx)"
    unfolding p'(4) by (simp add: suffix_tiles_counts [OF wf] t)
  have d: "\<not> bitset_equals (crates p') (goals p') (bitset_size ctx)
         \<longleftrightarrow> (\<exists>k<length tiles. tile_crate (tiles ! k) \<noteq> tile_goal (tiles ! k))"
    unfolding p'(2,3) t by (rule suffix_tiles_differ [OF wf])
  have e: "\<not> bitset_equals (crates p') (goals p') (bitset_size ctx)
         \<longleftrightarrow> (\<exists>pos<64 * bitset_size ctx. get_bit (crates p') pos \<noteq> get_bit (goals p') pos)"
    by (auto simp add: bitset_equals_iff)
  have "compilable p' \<longleftrightarrow>
          length (filter tile_player tiles) = 1
          \<and> length (filter tile_goal tiles) = length (filter tile_crate tiles)
          \<and> (\<exists>k<length tiles. tile_crate (tiles ! k) \<and> \<not> tile_goal (tiles ! k))"
    using c d crate_off_goal_iff [of tiles] by blast
  with c e p'(1) show ?thesis by blast
qed

theorem parse_problem_compilable_witness:
  "ctx_row3 = create_context 3 1 10
   \<and> length (takeWhile (\<lambda>c. c \<noteq> CHR 0x00) ''A10'') < (2::nat) ^ 32
   \<and> ''A10'' = take ((width ctx_row3 - 2) * (height ctx_row3 - 2))
                   (filter is_tile (takeWhile (\<lambda>c. c \<noteq> CHR 0x00) ''A10''))
   \<and> (\<exists>p'. parse_problem ctx_row3 (allocate_problem ctx_row3) ''A10'' = Some (p', True)
     \<and> compilable p'
     \<and> length (filter tile_player ''A10'') = 1
     \<and> length (filter tile_goal ''A10'') = length (filter tile_crate ''A10'')
     \<and> (\<exists>k<length ''A10''. tile_crate (''A10'' ! k) \<and> \<not> tile_goal (''A10'' ! k))
     \<and> (\<exists>pos<64 * bitset_size ctx_row3. get_bit (crates p') pos \<noteq> get_bit (goals p') pos))"
proof -
  have l: "length (takeWhile (\<lambda>c. c \<noteq> CHR 0x00) ''A10'') < (2::nat) ^ 32" by simp
  have t: "''A10'' = take ((width ctx_row3 - 2) * (height ctx_row3 - 2))
                   (filter is_tile (takeWhile (\<lambda>c. c \<noteq> CHR 0x00) ''A10''))"
    by (simp add: ctx_row3_eq is_tile_def)
  have c: "length (filter tile_player ''A10'') = 1"
    "length (filter tile_goal ''A10'') = length (filter tile_crate ''A10'')"
    by (simp_all add: tile_player_def tile_goal_def tile_crate_def)
  have k: "\<exists>k<length ''A10''. tile_crate (''A10'' ! k) \<and> \<not> tile_goal (''A10'' ! k)"
    by (intro exI [of _ 1]) (simp add: tile_crate_def tile_goal_def)
  from parse_problem_compilable [OF ctx_row3_def l t, of "allocate_problem ctx_row3"]
  obtain p' where r: "parse_problem ctx_row3 (allocate_problem ctx_row3) ''A10'' = Some (p', compilable p')"
    and i1: "compilable p' \<longleftrightarrow>
          length (filter tile_player ''A10'') = 1
          \<and> length (filter tile_goal ''A10'') = length (filter tile_crate ''A10'')
          \<and> (\<exists>k<length ''A10''. tile_crate (''A10'' ! k) \<and> \<not> tile_goal (''A10'' ! k))"
    and i2: "compilable p' \<longleftrightarrow>
          length (filter tile_player ''A10'') = 1
          \<and> length (filter tile_goal ''A10'') = length (filter tile_crate ''A10'')
          \<and> (\<exists>pos<64 * bitset_size ctx_row3. get_bit (crates p') pos \<noteq> get_bit (goals p') pos)"
    by blast
  from i1 c k have cp: "compilable p'" by blast
  with i2 have d: "\<exists>pos<64 * bitset_size ctx_row3. get_bit (crates p') pos \<noteq> get_bit (goals p') pos"
    by blast
  from r cp have "parse_problem ctx_row3 (allocate_problem ctx_row3) ''A10'' = Some (p', True)"
    by simp
  with cp d l t c k ctx_row3_def show ?thesis by blast
qed

section \<open>C3: potentially\_solvable\<close>

text \<open>A second level on the same board, \<open>0A1\<close>: the crate stands in the right corner, off
  the goal, so the 2x2 check rejects the level.\<close>

definition problem_stuck3 :: problem_t where
  "problem_stuck3 =
     \<lparr> goal_count = 1, player = 7, walls = [- 449], goals = [64], crates = [256],
       deadlocks = [0], heuristics = replicate 15 0,
       compilable = True, potentially_solvable = False \<rparr>"

lemma suffix_tiles_stuck3:
  "suffix_tiles ctx_row3 (allocate_problem ctx_row3) ''0A1'' =
     \<lparr> ps_walls = [- 449], ps_goals = [64], ps_crates = [256], ps_player = 7,
       ps_position = 11, ps_goal_count = 1, ps_crate_count = 1,
       ps_player_count = 1, ps_rest = [] \<rparr>"
  by (simp add: ctx_row3_eq allocate_problem_def parse_eval)

lemma suffix_problem_stuck3:
  "suffix_problem ctx_row3 (allocate_problem ctx_row3) ''0A1'' = Some (problem_stuck3, True)"
proof -
  let ?p = "allocate_problem ctx_row3"
  define st where "st = suffix_tiles ctx_row3 ?p ''0A1''"
  define p1 where "p1 = ?p\<lparr> walls := ps_walls st, goals := ps_goals st, crates := ps_crates st,
                  player := ps_player st, goal_count := ps_goal_count st \<rparr>"
  define p2 where "p2 = p1\<lparr> compilable := True \<rparr>"
  have st: "st = \<lparr> ps_walls = [- 449], ps_goals = [64], ps_crates = [256], ps_player = 7,
       ps_position = 11, ps_goal_count = 1, ps_crate_count = 1,
       ps_player_count = 1, ps_rest = [] \<rparr>"
    unfolding st_def by (rule suffix_tiles_stuck3)
  have p2: "p2 = problem_stuck3"
    by (simp add: p2_def p1_def st allocate_problem_def ctx_row3_eq bitset_zeros_def
        problem_stuck3_def)
  have v1: "True = (ps_player_count st = 1 \<and> ps_goal_count st = ps_crate_count st
                   \<and> \<not> bitset_equals (crates p1) (goals p1) (bitset_size ctx_row3))"
    by (simp add: p1_def st ctx_row3_eq)
  have c2: "check_all_2x2_deadlock ctx_row3 p2"
    by (simp add: p2 problem_stuck3_def ctx_row3_eq check_all_eval)
  then have v2: "False = (if True then \<not> check_all_2x2_deadlock ctx_row3 p2 else True)" by simp
  have g: "(if False then generate_deadlock_map ctx_row3 p2 else Some p2) = Some p2" by simp
  have v3: "False = (if False
                   then \<not> bitset_covers_any (crates p2) (deadlocks p2) (bitset_size ctx_row3)
                   else False)"
    by simp
  have r: "(if False
              then check_reachability ctx_row3 (crates p2) (goals p2) (walls p2) (player p2)
              else Some False) = Some False"
    by simp
  from suffix_problem_unfold [OF st_def p1_def v1 p2_def v2 g v3 r]
  show ?thesis by (simp add: p2 problem_stuck3_def)
qed


lemma strlen_small: "length s < 4294967296 \<Longrightarrow> strlen s < 4294967296"
  using strlen_le [of s] by simp

text \<open>
  C3. On a level string of fewer than \<open>2^32\<close> characters before its first NUL,
  \<open>parse_problem\<close> returns with \<open>potentially_solvable\<close> true exactly when the four checks
  pass: the level is compilable; no 2x2 window of the board has all four cells occupied by
  walls or crates with one of the crates off a goal; no crate stands on a deadlock cell;
  every cell holding a crate or a goal but not both can be walked to by the player over
  cells that are not walls. When the first two checks pass, the deadlock cells are the
  cells from which no sequence of pushes brings a lone crate to a goal. On a problem
  whose \<open>potentially_solvable\<close> is false both solvers return at once the result with
  \<open>solved\<close> and \<open>limit_exceeded\<close> false, no actions and 0 iterations.
\<close>

theorem parse_problem_potentially_solvable:
  fixes h_factor g_factor :: "'p::linordered_idom"
  assumes "ctx = create_context w h capacity"
    and "length (takeWhile (\<lambda>c. c \<noteq> CHR 0x00) level_str) < 2 ^ 32"
  shows "\<exists>p'. parse_problem ctx p level_str = Some (p', compilable p')
     \<and> (potentially_solvable p' \<longleftrightarrow>
          compilable p'
          \<and> \<not> (\<exists>y<height ctx - 1. \<exists>x<width ctx - 1.
                 window_stuck (width ctx) p' (y * width ctx + x))
          \<and> \<not> (\<exists>pos<64 * bitset_size ctx. get_bit (crates p') pos \<and> get_bit (deadlocks p') pos)
          \<and> (\<forall>pos<64 * bitset_size ctx.
                (get_bit (crates p') pos \<and> \<not> get_bit (goals p') pos
                 \<or> get_bit (goals p') pos \<and> \<not> get_bit (crates p') pos)
                \<longrightarrow> pos \<in> walkable (width ctx) (walls p') (player p')))
     \<and> (compilable p'
          \<and> \<not> (\<exists>y<height ctx - 1. \<exists>x<width ctx - 1.
                 window_stuck (width ctx) p' (y * width ctx + x))
          \<longrightarrow> (\<forall>pos<64 * bitset_size ctx.
                 get_bit (deadlocks p') pos
                 \<longleftrightarrow> pos \<notin> pullable (width ctx) (area ctx) (walls p') (goals p')))
     \<and> (\<not> potentially_solvable p' \<longrightarrow>
          solve_bfs ctx p' max_iterations
            = Some (Returns \<lparr> solved = False, actions = None, iterations = 0,
                               limit_exceeded = False \<rparr>)
          \<and> solve_astar ctx p' h_factor g_factor max_iterations
            = Some (Returns \<lparr> solved = False, actions = None, iterations = 0,
                               limit_exceeded = False \<rparr>))"
proof -
  let ?N = "64 * bitset_size ctx"
  have wf: "wf_context ctx" unfolding assms(1) by (rule wf_create_context)
  have len: "strlen level_str < 4294967296" using assms(2) by (simp add: strlen_def)
  from parse_problem_result [OF wf len, of p] obtain p'
    where r: "parse_problem ctx p level_str = Some (p', compilable p')"
      and ps: "potentially_solvable p'
         = (compilable p' \<and> \<not> check_all_2x2_deadlock ctx p'
            \<and> \<not> bitset_covers_any (crates p') (deadlocks p') (bitset_size ctx)
            \<and> check_reachability ctx (crates p') (goals p') (walls p') (player p') = Some True)"
      and wp: "compilable p' \<longrightarrow> wf_problem ctx p'"
      and dm: "compilable p' \<and> \<not> check_all_2x2_deadlock ctx p'
          \<longrightarrow> deadlock_maps ctx p' = Some (deadlocks p', heuristics p')"
    by blast
  let ?stuck = "\<exists>y<height ctx - 1. \<exists>x<width ctx - 1.
                 window_stuck (width ctx) p' (y * width ctx + x)"
  let ?walk = "\<forall>pos<?N.
                (get_bit (crates p') pos \<and> \<not> get_bit (goals p') pos
                 \<or> get_bit (goals p') pos \<and> \<not> get_bit (crates p') pos)
                \<longrightarrow> pos \<in> walkable (width ctx) (walls p') (player p')"
  have two: "check_all_2x2_deadlock ctx p' \<longleftrightarrow> ?stuck" if c: "compilable p'"
  proof -
    from wp c have "inner ctx (player p')" by (simp add: wf_problem_def)
    then have "0 < area ctx" by (simp add: inner_def)
    with wf have "0 < width ctx * height ctx" by (simp add: wf_context_def)
    then have "1 \<le> width ctx" "1 \<le> height ctx" by simp_all
    then show ?thesis by (rule check_all_2x2_deadlock_iff [OF wf])
  qed
  have three: "bitset_covers_any (crates p') (deadlocks p') (bitset_size ctx)
        \<longleftrightarrow> (\<exists>pos<?N. get_bit (crates p') pos \<and> get_bit (deadlocks p') pos)"
    by (rule bitset_covers_any_iff)
  have four: "check_reachability ctx (crates p') (goals p') (walls p') (player p') = Some True
        \<longleftrightarrow> ?walk" if c: "compilable p'"
  proof -
    from wp c have w: "closed_walls ctx (walls p')" "\<not> get_bit (walls p') (player p')"
      "inner ctx (player p')" by (simp_all add: wf_problem_def)
    from w(3) have "player p' < ?N" by (rule inner_in_range [OF wf])
    from check_reachability_walkable(2) [OF wf w(1,2) this, of "crates p'" "goals p'"]
    show ?thesis by auto
  qed
  have a: "potentially_solvable p' \<longleftrightarrow>
          compilable p' \<and> \<not> ?stuck
          \<and> \<not> (\<exists>pos<?N. get_bit (crates p') pos \<and> get_bit (deadlocks p') pos) \<and> ?walk"
    unfolding ps three using two four by blast
  have b: "\<forall>pos<?N. get_bit (deadlocks p') pos
                 \<longleftrightarrow> pos \<notin> pullable (width ctx) (area ctx) (walls p') (goals p')"
    if "compilable p' \<and> \<not> ?stuck"
  proof (intro allI impI)
    fix pos assume pos: "pos < ?N"
    from that two have "compilable p' \<and> \<not> check_all_2x2_deadlock ctx p'" by blast
    with dm have m: "deadlock_maps ctx p' = Some (deadlocks p', heuristics p')" by blast
    from wp that have "closed_walls ctx (walls p')" "goals_off_walls ctx p'"
      by (simp_all add: wf_problem_def)
    from deadlock_maps_pullable [OF wf this m pos]
    show "get_bit (deadlocks p') pos
            \<longleftrightarrow> pos \<notin> pullable (width ctx) (area ctx) (walls p') (goals p')" by simp
  qed
  have c: "solve_bfs ctx p' max_iterations
            = Some (Returns \<lparr> solved = False, actions = None, iterations = 0,
                               limit_exceeded = False \<rparr>)
          \<and> solve_astar ctx p' h_factor g_factor max_iterations
            = Some (Returns \<lparr> solved = False, actions = None, iterations = 0,
                               limit_exceeded = False \<rparr>)"
    if "\<not> potentially_solvable p'"
    using that by (simp add: solve_bfs_def solve_astar_def create_result_def)
  from r a b c show ?thesis by blast
qed

theorem parse_problem_potentially_solvable_witness:
  "ctx_row3 = create_context 3 1 10
   \<and> length (takeWhile (\<lambda>c. c \<noteq> CHR 0x00) ''0A1'') < (2::nat) ^ 32
   \<and> (\<exists>p'. parse_problem ctx_row3 (allocate_problem ctx_row3) ''0A1'' = Some (p', True)
        \<and> compilable p' \<and> window_stuck (width ctx_row3) p' (0 * width ctx_row3 + 3)
        \<and> \<not> potentially_solvable p'
        \<and> solve_bfs ctx_row3 p' 5
            = Some (Returns \<lparr> solved = False, actions = None, iterations = 0,
                               limit_exceeded = False \<rparr>)
        \<and> solve_astar ctx_row3 p' (1::int) 1 5
            = Some (Returns \<lparr> solved = False, actions = None, iterations = 0,
                               limit_exceeded = False \<rparr>))
   \<and> length (takeWhile (\<lambda>c. c \<noteq> CHR 0x00) ''A10'') < (2::nat) ^ 32
   \<and> (\<exists>p'. parse_problem ctx_row3 (allocate_problem ctx_row3) ''A10'' = Some (p', True)
        \<and> potentially_solvable p'
        \<and> get_bit (deadlocks p') 6
        \<and> 6 \<notin> pullable (width ctx_row3) (area ctx_row3) (walls p') (goals p')
        \<and> \<not> get_bit (deadlocks p') 7
        \<and> 7 \<in> pullable (width ctx_row3) (area ctx_row3) (walls p') (goals p'))"
proof -
  have l1: "length (takeWhile (\<lambda>c. c \<noteq> CHR 0x00) ''0A1'') < (2::nat) ^ 32" by simp
  have l2: "length (takeWhile (\<lambda>c. c \<noteq> CHR 0x00) ''A10'') < (2::nat) ^ 32" by simp
  have e1: "parse_problem ctx_row3 (allocate_problem ctx_row3) ''0A1'' = Some (problem_stuck3, True)"
    by (simp add: parse_problem_suffix strlen_small suffix_problem_stuck3)
  have e2: "parse_problem ctx_row3 (allocate_problem ctx_row3) ''A10'' = Some (problem_row3, True)"
    by (simp add: parse_problem_suffix strlen_small suffix_problem_row3)
  have first: "\<exists>p'. parse_problem ctx_row3 (allocate_problem ctx_row3) ''0A1'' = Some (p', True)
        \<and> compilable p' \<and> window_stuck (width ctx_row3) p' (0 * width ctx_row3 + 3)
        \<and> \<not> potentially_solvable p'
        \<and> solve_bfs ctx_row3 p' 5
            = Some (Returns \<lparr> solved = False, actions = None, iterations = 0,
                               limit_exceeded = False \<rparr>)
        \<and> solve_astar ctx_row3 p' (1::int) 1 5
            = Some (Returns \<lparr> solved = False, actions = None, iterations = 0,
                               limit_exceeded = False \<rparr>)"
  proof -
    from parse_problem_potentially_solvable [OF ctx_row3_def l1,
        of "allocate_problem ctx_row3" 5 "1::int" 1]
    obtain p' where r: "parse_problem ctx_row3 (allocate_problem ctx_row3) ''0A1''
                         = Some (p', compilable p')"
      and a: "potentially_solvable p' \<longleftrightarrow>
          compilable p'
          \<and> \<not> (\<exists>y<height ctx_row3 - 1. \<exists>x<width ctx_row3 - 1.
                 window_stuck (width ctx_row3) p' (y * width ctx_row3 + x))
          \<and> \<not> (\<exists>pos<64 * bitset_size ctx_row3. get_bit (crates p') pos \<and> get_bit (deadlocks p') pos)
          \<and> (\<forall>pos<64 * bitset_size ctx_row3.
                (get_bit (crates p') pos \<and> \<not> get_bit (goals p') pos
                 \<or> get_bit (goals p') pos \<and> \<not> get_bit (crates p') pos)
                \<longrightarrow> pos \<in> walkable (width ctx_row3) (walls p') (player p'))"
      and c: "\<not> potentially_solvable p' \<longrightarrow>
          solve_bfs ctx_row3 p' 5
            = Some (Returns \<lparr> solved = False, actions = None, iterations = 0,
                               limit_exceeded = False \<rparr>)
          \<and> solve_astar ctx_row3 p' (1::int) 1 5
            = Some (Returns \<lparr> solved = False, actions = None, iterations = 0,
                               limit_exceeded = False \<rparr>)"
      by blast
    from r e1 have p': "p' = problem_stuck3" by simp
    have k: "compilable p'" by (simp add: p' problem_stuck3_def)
    have w: "window_stuck (width ctx_row3) p' (0 * width ctx_row3 + 3)"
      by (simp add: p' problem_stuck3_def ctx_row3_eq window_stuck_def get_bit_def)
    have "(0::nat) < height ctx_row3 - 1" "(3::nat) < width ctx_row3 - 1"
      by (simp_all add: ctx_row3_eq)
    with w have "\<exists>y<height ctx_row3 - 1. \<exists>x<width ctx_row3 - 1.
                 window_stuck (width ctx_row3) p' (y * width ctx_row3 + x)" by blast
    with a have n: "\<not> potentially_solvable p'" by blast
    from r k have "parse_problem ctx_row3 (allocate_problem ctx_row3) ''0A1'' = Some (p', True)"
      by simp
    with k w n c show ?thesis by blast
  qed
  have second: "\<exists>p'. parse_problem ctx_row3 (allocate_problem ctx_row3) ''A10'' = Some (p', True)
        \<and> potentially_solvable p'
        \<and> get_bit (deadlocks p') 6
        \<and> 6 \<notin> pullable (width ctx_row3) (area ctx_row3) (walls p') (goals p')
        \<and> \<not> get_bit (deadlocks p') 7
        \<and> 7 \<in> pullable (width ctx_row3) (area ctx_row3) (walls p') (goals p')"
  proof -
    from parse_problem_potentially_solvable [OF ctx_row3_def l2,
        of "allocate_problem ctx_row3" 5 "1::int" 1]
    obtain p' where r: "parse_problem ctx_row3 (allocate_problem ctx_row3) ''A10''
                         = Some (p', compilable p')"
      and a: "potentially_solvable p' \<longleftrightarrow>
          compilable p'
          \<and> \<not> (\<exists>y<height ctx_row3 - 1. \<exists>x<width ctx_row3 - 1.
                 window_stuck (width ctx_row3) p' (y * width ctx_row3 + x))
          \<and> \<not> (\<exists>pos<64 * bitset_size ctx_row3. get_bit (crates p') pos \<and> get_bit (deadlocks p') pos)
          \<and> (\<forall>pos<64 * bitset_size ctx_row3.
                (get_bit (crates p') pos \<and> \<not> get_bit (goals p') pos
                 \<or> get_bit (goals p') pos \<and> \<not> get_bit (crates p') pos)
                \<longrightarrow> pos \<in> walkable (width ctx_row3) (walls p') (player p'))"
      and b: "compilable p'
          \<and> \<not> (\<exists>y<height ctx_row3 - 1. \<exists>x<width ctx_row3 - 1.
                 window_stuck (width ctx_row3) p' (y * width ctx_row3 + x))
          \<longrightarrow> (\<forall>pos<64 * bitset_size ctx_row3.
                 get_bit (deadlocks p') pos
                 \<longleftrightarrow> pos \<notin> pullable (width ctx_row3) (area ctx_row3) (walls p') (goals p'))"
      by blast
    from r e2 have p': "p' = problem_row3" by simp
    have s: "potentially_solvable p'" by (simp add: p' problem_row3_def)
    have d: "get_bit (deadlocks p') 6" "\<not> get_bit (deadlocks p') 7"
      by (simp_all add: p' problem_row3_def get_bit_def)
    have "(6::nat) < 64 * bitset_size ctx_row3" "(7::nat) < 64 * bitset_size ctx_row3"
      by (simp_all add: ctx_row3_eq)
    with a b s d have "6 \<notin> pullable (width ctx_row3) (area ctx_row3) (walls p') (goals p')"
      "7 \<in> pullable (width ctx_row3) (area ctx_row3) (walls p') (goals p')"
      by blast+
    moreover from r p' have "parse_problem ctx_row3 (allocate_problem ctx_row3) ''A10'' = Some (p', True)"
      by (simp add: problem_row3_def)
    ultimately show ?thesis using s d by blast
  qed
  from first second l1 l2 ctx_row3_def show ?thesis by blast
qed

section \<open>The searches on the level A10\<close>

lemma astar_init_row3:
  "astar_init ctx_row3 problem_row3 (1::int) =
     \<lparr> as_cache = [\<lparr> parent = None, action = CHR 0x00, s_player = 6, s_crates = [128], cost = 0,
                      priority = 1, heuristic = 1, heap_index = 0 \<rparr>],
       as_map = [0], as_heap = [0], as_free_bits = 0, as_iterations = 0, as_result = None \<rparr>"
  by (simp add: astar_init_def compute_heuristic_def ctx_row3_eq problem_row3_def upt_15
      get_bit_def heap_insert_def hashmap_set_def Let_def)

lemmas search_eval =
  directions_def pos_add_def get_bit_def set_bit_bs_def clear_bit_def bitset_copy_def
  check_single_2x2_deadlock_def single_2x2_ortho_def ACTIONS_def found_def build_solution_def
  create_result_def Let_def

lemma astar_step_row3:
  "astar_step ctx_row3 problem_row3 (1::int) 1 1 (astar_init ctx_row3 problem_row3 1) =
     \<lparr> as_cache = [\<lparr> parent = None, action = CHR 0x00, s_player = 6, s_crates = [128], cost = 0,
                      priority = 1, heuristic = 1, heap_index = - 1 \<rparr>],
       as_map = [0], as_heap = [], as_free_bits = 1, as_iterations = 1,
       as_result = Some (Returns \<lparr> solved = True, actions = Some ''R'', iterations = 1,
                                    limit_exceeded = False \<rparr>) \<rparr>"
  unfolding astar_init_row3
  by (simp add: astar_step_def heap_pop_def foldl_upt_4 astar_expand_def astar_child_def
      ctx_row3_eq problem_row3_def search_eval)

lemma while_option_once: "b s \<Longrightarrow> \<not> b (c s) \<Longrightarrow> while_option b c s = Some (c s)"
  by (subst while_option_unfold, simp, subst while_option_unfold, simp)

lemma solve_astar_row3:
  "solve_astar ctx_row3 problem_row3 (1::int) 1 1
     = Some (Returns \<lparr> solved = True, actions = Some ''R'', iterations = 1,
                        limit_exceeded = False \<rparr>)"
proof -
  have "astar_loop ctx_row3 problem_row3 (1::int) 1 1
        = Some (astar_step ctx_row3 problem_row3 (1::int) 1 1 (astar_init ctx_row3 problem_row3 1))"
    unfolding astar_loop_def
  proof (rule while_option_once)
    show "as_result (astar_init ctx_row3 problem_row3 (1::int)) = None
          \<and> as_heap (astar_init ctx_row3 problem_row3 (1::int)) \<noteq> []"
      unfolding astar_init_row3 by simp
    show "\<not> (as_result (astar_step ctx_row3 problem_row3 (1::int) 1 1
                          (astar_init ctx_row3 problem_row3 1)) = None
             \<and> as_heap (astar_step ctx_row3 problem_row3 (1::int) 1 1
                          (astar_init ctx_row3 problem_row3 1)) \<noteq> [])"
      unfolding astar_step_row3 by simp
  qed
  then show ?thesis
    unfolding solve_astar_def astar_step_row3 by (simp add: problem_row3_def)
qed

lemma bfs_step_row3:
  "bfs_step ctx_row3 problem_row3 1 (bfs_init problem_row3) =
     \<lparr> bfs_cache = [\<lparr> parent = None, action = CHR 0x00, s_player = 6, s_crates = [128],
                       cost = 0 \<rparr>],
       bfs_map = [0], bfs_current = 1, bfs_free_bits = 1, bfs_iterations = 1,
       bfs_result = Some (Returns \<lparr> solved = True, actions = Some ''R'', iterations = 1,
                                     limit_exceeded = False \<rparr>) \<rparr>"
  by (simp add: bfs_step_def bfs_init_def hashmap_set_def foldl_upt_4 bfs_expand_def bfs_child_def
      ctx_row3_eq problem_row3_def search_eval)

lemma solve_bfs_row3:
  "solve_bfs ctx_row3 problem_row3 1
     = Some (Returns \<lparr> solved = True, actions = Some ''R'', iterations = 1,
                        limit_exceeded = False \<rparr>)"
proof -
  have "bfs_loop ctx_row3 problem_row3 1
        = Some (bfs_step ctx_row3 problem_row3 1 (bfs_init problem_row3))"
    unfolding bfs_loop_def
  proof (rule while_option_once)
    show "bfs_result (bfs_init problem_row3) = None
          \<and> bfs_current (bfs_init problem_row3) \<noteq> length (bfs_cache (bfs_init problem_row3))"
      by (simp add: bfs_init_def)
    show "\<not> (bfs_result (bfs_step ctx_row3 problem_row3 1 (bfs_init problem_row3)) = None
             \<and> bfs_current (bfs_step ctx_row3 problem_row3 1 (bfs_init problem_row3))
                 \<noteq> length (bfs_cache (bfs_step ctx_row3 problem_row3 1 (bfs_init problem_row3))))"
      unfolding bfs_step_row3 by simp
  qed
  then show ?thesis
    unfolding solve_bfs_def bfs_step_row3 by (simp add: problem_row3_def)
qed

section \<open>The iteration limit\<close>

text \<open>An expansion leaves the iteration counter alone, and a result it returns carries the
  counter.\<close>

lemma astar_expand_iterations:
  fixes h_factor g_factor :: "'p::linordered_idom"
  shows "as_iterations (astar_expand ctx p h_factor g_factor par cst s index) = as_iterations s"
  by (simp add: astar_expand_def astar_child_def astar_update_twin_def Let_def
      split: option.splits)

lemma astar_expand_result:
  fixes h_factor g_factor :: "'p::linordered_idom"
  assumes "as_result (astar_expand ctx p h_factor g_factor par cst s index) = Some (Returns r)"
  shows "as_result s = Some (Returns r) \<or> iterations r = as_iterations s"
  using assms
  by (auto simp add: astar_expand_def astar_child_def astar_update_twin_def found_def
      create_result_def Let_def split: option.splits if_splits)

lemma bfs_expand_iterations:
  "bfs_iterations (bfs_expand ctx p par cst s index) = bfs_iterations s"
  by (simp add: bfs_expand_def bfs_child_def Let_def split: option.splits)

lemma bfs_expand_result:
  assumes "bfs_result (bfs_expand ctx p par cst s index) = Some (Returns r)"
  shows "bfs_result s = Some (Returns r) \<or> iterations r = bfs_iterations s"
  using assms
  by (auto simp add: bfs_expand_def bfs_child_def found_def create_result_def Let_def
      split: option.splits if_splits)

lemma astar_fold_iterations:
  fixes h_factor g_factor :: "'p::linordered_idom"
  shows "as_iterations (foldl (astar_expand ctx p h_factor g_factor par cst) s is) = as_iterations s"
  by (induction "is" arbitrary: s) (simp_all add: astar_expand_iterations)

lemma astar_fold_result:
  fixes h_factor g_factor :: "'p::linordered_idom"
  shows "as_result (foldl (astar_expand ctx p h_factor g_factor par cst) s is) = Some (Returns r)
         \<Longrightarrow> as_result s = Some (Returns r) \<or> iterations r = as_iterations s"
proof (induction "is" arbitrary: s)
  case Nil
  then show ?case by simp
next
  case (Cons i "is")
  from Cons.IH [of "astar_expand ctx p h_factor g_factor par cst s i"] Cons.prems
  have "as_result (astar_expand ctx p h_factor g_factor par cst s i) = Some (Returns r)
        \<or> iterations r = as_iterations s"
    by (simp add: astar_expand_iterations)
  with astar_expand_result [of ctx p h_factor g_factor par cst s i r] show ?case by blast
qed

lemma bfs_fold_iterations:
  "bfs_iterations (foldl (bfs_expand ctx p par cst) s is) = bfs_iterations s"
  by (induction "is" arbitrary: s) (simp_all add: bfs_expand_iterations)

lemma bfs_fold_result:
  "bfs_result (foldl (bfs_expand ctx p par cst) s is) = Some (Returns r)
   \<Longrightarrow> bfs_result s = Some (Returns r) \<or> iterations r = bfs_iterations s"
proof (induction "is" arbitrary: s)
  case Nil
  then show ?case by simp
next
  case (Cons i "is")
  from Cons.IH [of "bfs_expand ctx p par cst s i"] Cons.prems
  have "bfs_result (bfs_expand ctx p par cst s i) = Some (Returns r)
        \<or> iterations r = bfs_iterations s"
    by (simp add: bfs_expand_iterations)
  with bfs_expand_result [of ctx p par cst s i r] show ?case by blast
qed

text \<open>The first turn of either loop: the counter is 0, so the limit test does not fire,
  the counter becomes 1 and the root is expanded.\<close>

lemma astar_init_fields:
  fixes h_factor :: "'p::linordered_idom"
  shows "as_result (astar_init ctx p h_factor) = None"
    and "as_heap (astar_init ctx p h_factor) \<noteq> []"
    and "as_iterations (astar_init ctx p h_factor) = 0"
  by (simp_all add: astar_init_def heap_insert_def Let_def)

lemma astar_step_expand:
  fixes h_factor g_factor :: "'p::linordered_idom"
  assumes "\<not> (0 < m \<and> m \<le> as_iterations s)"
  shows "\<exists>par cst s'. astar_step ctx p h_factor g_factor m s
           = foldl (astar_expand ctx p h_factor g_factor par cst) s' [0..<4]
         \<and> as_iterations s' = as_iterations s + 1 \<and> as_result s' = as_result s"
proof -
  obtain par cache1 heap1 where hp: "heap_pop (as_cache s, as_heap s) = (par, cache1, heap1)"
    by (cases "heap_pop (as_cache s, as_heap s)")
  let ?cache2 = "cache1[par := (cache1 ! par)\<lparr> heap_index := - 1 \<rparr>]"
  let ?s = "s\<lparr> as_iterations := as_iterations s + 1, as_cache := ?cache2, as_heap := heap1 \<rparr>"
  have "astar_step ctx p h_factor g_factor m s
        = foldl (astar_expand ctx p h_factor g_factor par ((cost (?cache2 ! par) + 1) mod 65536))
            ?s [0..<4]"
    using assms unfolding astar_step_def hp Let_def by auto
  then show ?thesis by (intro exI [of _ par] exI [of _ "(cost (?cache2 ! par) + 1) mod 65536"]
        exI [of _ ?s]) simp
qed

lemma astar_step_limit:
  fixes h_factor g_factor :: "'p::linordered_idom"
  shows "0 < m \<Longrightarrow> m \<le> as_iterations s \<Longrightarrow>
    astar_step ctx p h_factor g_factor m s
      = s\<lparr> as_result := Some (Returns (create_result False None (as_iterations s) True)) \<rparr>"
  by (simp add: astar_step_def)

lemma bfs_step_limit:
  "0 < m \<Longrightarrow> m \<le> bfs_iterations s \<Longrightarrow>
    bfs_step ctx p m s
      = s\<lparr> bfs_result := Some (Returns (create_result False None (bfs_iterations s) True)) \<rparr>"
  by (simp add: bfs_step_def)

lemma astar_first_step:
  fixes h_factor g_factor :: "'p::linordered_idom"
  shows "astar_step ctx p h_factor g_factor m (astar_init ctx p h_factor)
           = astar_step ctx p h_factor g_factor 0 (astar_init ctx p h_factor)"
    and "as_iterations (astar_step ctx p h_factor g_factor m (astar_init ctx p h_factor)) = 1"
    and "as_result (astar_step ctx p h_factor g_factor m (astar_init ctx p h_factor))
           = Some (Returns r) \<Longrightarrow> iterations r = 1"
proof -
  let ?s0 = "astar_init ctx p h_factor"
  have c: "\<not> (0 < m \<and> m \<le> as_iterations ?s0)" by (auto simp add: astar_init_fields)
  show "astar_step ctx p h_factor g_factor m ?s0 = astar_step ctx p h_factor g_factor 0 ?s0"
    using c unfolding astar_step_def by auto
  from astar_step_expand [OF c, of ctx p h_factor g_factor] obtain par cst s'
    where st: "astar_step ctx p h_factor g_factor m ?s0
           = foldl (astar_expand ctx p h_factor g_factor par cst) s' [0..<4]"
      and s': "as_iterations s' = 1" "as_result s' = None"
    by (auto simp add: astar_init_fields)
  show "as_iterations (astar_step ctx p h_factor g_factor m ?s0) = 1"
    unfolding st astar_fold_iterations by (rule s')
  show "iterations r = 1"
    if "as_result (astar_step ctx p h_factor g_factor m ?s0) = Some (Returns r)"
    using astar_fold_result [OF that [unfolded st]] by (simp add: s')
qed

lemma bfs_init_fields:
  "bfs_result (bfs_init p) = None" "bfs_current (bfs_init p) \<noteq> length (bfs_cache (bfs_init p))"
  "bfs_iterations (bfs_init p) = 0"
  by (simp_all add: bfs_init_def)

lemma bfs_step_expand:
  assumes "\<not> (0 < m \<and> m \<le> bfs_iterations s)"
  shows "\<exists>par cst s'. bfs_step ctx p m s = foldl (bfs_expand ctx p par cst) s' [0..<4]
         \<and> bfs_iterations s' = bfs_iterations s + 1 \<and> bfs_result s' = bfs_result s"
proof -
  let ?s = "s\<lparr> bfs_iterations := bfs_iterations s + 1, bfs_current := bfs_current s + 1 \<rparr>"
  have "bfs_step ctx p m s
        = foldl (bfs_expand ctx p (bfs_current s)
                   ((cost (bfs_cache s ! bfs_current s) + 1) mod 65536)) ?s [0..<4]"
    using assms unfolding bfs_step_def Let_def by auto
  then show ?thesis
    by (intro exI [of _ "bfs_current s"]
        exI [of _ "(cost (bfs_cache s ! bfs_current s) + 1) mod 65536"] exI [of _ ?s]) simp
qed

lemma bfs_first_step:
  shows "bfs_step ctx p m (bfs_init p) = bfs_step ctx p 0 (bfs_init p)"
    and "bfs_iterations (bfs_step ctx p m (bfs_init p)) = 1"
    and "bfs_result (bfs_step ctx p m (bfs_init p)) = Some (Returns r) \<Longrightarrow> iterations r = 1"
proof -
  let ?s0 = "bfs_init p"
  have c: "\<not> (0 < m \<and> m \<le> bfs_iterations ?s0)" by (auto simp add: bfs_init_fields)
  show "bfs_step ctx p m ?s0 = bfs_step ctx p 0 ?s0"
    using c unfolding bfs_step_def by auto
  from bfs_step_expand [OF c, of ctx p] obtain par cst s'
    where st: "bfs_step ctx p m ?s0 = foldl (bfs_expand ctx p par cst) s' [0..<4]"
      and s': "bfs_iterations s' = 1" "bfs_result s' = None"
    by (auto simp add: bfs_init_fields)
  show "bfs_iterations (bfs_step ctx p m ?s0) = 1"
    unfolding st bfs_fold_iterations by (rule s')
  show "iterations r = 1" if "bfs_result (bfs_step ctx p m ?s0) = Some (Returns r)"
    using bfs_fold_result [OF that [unfolded st]] by (simp add: s')
qed

lemma while_option_twice:
  "b s \<Longrightarrow> b (c s) \<Longrightarrow> \<not> b (c (c s)) \<Longrightarrow> while_option b c s = Some (c (c s))"
  by (subst while_option_unfold, simp, subst while_option_unfold, simp,
      subst while_option_unfold, simp)

lemma solve_astar_limit_one:
  fixes h_factor g_factor :: "'p::linordered_idom"
  assumes "potentially_solvable p"
  shows "\<exists>run. solve_astar ctx p h_factor g_factor 1 = Some run
            \<and> (\<forall>r. run = Returns r \<longrightarrow> iterations r = 1)"
proof -
  let ?b = "\<lambda>s. as_result s = None \<and> as_heap s \<noteq> ([]::nat list)"
  let ?c = "astar_step ctx p h_factor g_factor 1"
  let ?s0 = "astar_init ctx p h_factor"
  let ?s1 = "?c ?s0"
  note f = astar_first_step [of ctx p h_factor g_factor 1]
  have b0: "?b ?s0" by (simp add: astar_init_fields)
  show ?thesis
  proof (cases "?b ?s1")
    case False
    with b0 have "while_option ?b ?c ?s0 = Some ?s1" by (rule while_option_once)
    then have l: "astar_loop ctx p h_factor g_factor 1 = Some ?s1" by (simp add: astar_loop_def)
    show ?thesis
    proof (cases "as_result ?s1")
      case None
      with l assms f(2) show ?thesis by (simp add: solve_astar_def create_result_def)
    next
      case (Some run)
      with l assms f(3) show ?thesis by (auto simp add: solve_astar_def)
    qed
  next
    case True
    have s2: "?c ?s1 = ?s1\<lparr> as_result := Some (Returns (create_result False None 1 True)) \<rparr>"
      using astar_step_limit [of 1 ?s1 ctx p h_factor g_factor] f(2) by simp
    then have "\<not> ?b (?c ?s1)" by simp
    with b0 True have "while_option ?b ?c ?s0 = Some (?c ?s1)" by (rule while_option_twice)
    then have "astar_loop ctx p h_factor g_factor 1 = Some (?c ?s1)" by (simp add: astar_loop_def)
    with assms show ?thesis unfolding s2 by (simp add: solve_astar_def create_result_def)
  qed
qed

lemma solve_bfs_limit_one:
  assumes "potentially_solvable p"
  shows "\<exists>run. solve_bfs ctx p 1 = Some run \<and> (\<forall>r. run = Returns r \<longrightarrow> iterations r = 1)"
proof -
  let ?b = "\<lambda>s. bfs_result s = None \<and> bfs_current s \<noteq> length (bfs_cache s)"
  let ?c = "bfs_step ctx p 1"
  let ?s0 = "bfs_init p"
  let ?s1 = "?c ?s0"
  note f = bfs_first_step [of ctx p 1]
  have b0: "?b ?s0" by (simp add: bfs_init_fields)
  show ?thesis
  proof (cases "?b ?s1")
    case False
    with b0 have "while_option ?b ?c ?s0 = Some ?s1" by (rule while_option_once)
    then have l: "bfs_loop ctx p 1 = Some ?s1" by (simp add: bfs_loop_def)
    show ?thesis
    proof (cases "bfs_result ?s1")
      case None
      with l assms f(2) show ?thesis by (simp add: solve_bfs_def create_result_def)
    next
      case (Some run)
      with l assms f(3) show ?thesis by (auto simp add: solve_bfs_def)
    qed
  next
    case True
    have s2: "?c ?s1 = ?s1\<lparr> bfs_result := Some (Returns (create_result False None 1 True)) \<rparr>"
      using bfs_step_limit [of 1 ?s1 ctx p] f(2) by simp
    then have "\<not> ?b (?c ?s1)" by simp
    with b0 True have "while_option ?b ?c ?s0 = Some (?c ?s1)" by (rule while_option_twice)
    then have "bfs_loop ctx p 1 = Some (?c ?s1)" by (simp add: bfs_loop_def)
    with assms show ?thesis unfolding s2 by (simp add: solve_bfs_def create_result_def)
  qed
qed

section \<open>C10: the iteration limit of solve\_astar\<close>

text \<open>
  C10, as stated, fails: on the level \<open>A10\<close> (a potentially solvable level), \<open>solve_astar\<close>
  called with \<open>max_iterations = 1\<close> expands the root and returns the solution \<open>R\<close> with
  \<open>solved\<close> true and \<open>limit_exceeded\<close> false.
\<close>

theorem solve_astar_limit_one_counterexample:
  "parse_problem ctx_row3 (allocate_problem ctx_row3) ''A10'' = Some (problem_row3, True)
   \<and> potentially_solvable problem_row3
   \<and> solve_astar ctx_row3 problem_row3 (1::int) 1 1
       = Some (Returns \<lparr> solved = True, actions = Some ''R'', iterations = 1,
                          limit_exceeded = False \<rparr>)"
proof -
  have "parse_problem ctx_row3 (allocate_problem ctx_row3) ''A10'' = Some (problem_row3, True)"
    by (simp add: parse_problem_suffix strlen_small suffix_problem_row3)
  moreover have "potentially_solvable problem_row3" by (simp add: problem_row3_def)
  ultimately show ?thesis using solve_astar_row3 by blast
qed

text \<open>
  C10, amended. \<open>solve_astar\<close> tests the iteration limit before it increments the counter,
  as \<open>solve_bfs\<close> does: on every potentially solvable problem, the first turn of either
  loop with \<open>max_iterations = 1\<close> is the turn it makes without a limit (the root is
  expanded), both functions return, and a result they return has \<open>iterations = 1\<close>.
\<close>

theorem iteration_limit_tested_before_increment:
  fixes h_factor g_factor :: "'p::linordered_idom"
  assumes "potentially_solvable p"
  shows "astar_step ctx p h_factor g_factor 1 (astar_init ctx p h_factor)
           = astar_step ctx p h_factor g_factor 0 (astar_init ctx p h_factor)
     \<and> bfs_step ctx p 1 (bfs_init p) = bfs_step ctx p 0 (bfs_init p)
     \<and> (\<exists>run. solve_astar ctx p h_factor g_factor 1 = Some run
            \<and> (\<forall>r. run = Returns r \<longrightarrow> iterations r = 1))
     \<and> (\<exists>run. solve_bfs ctx p 1 = Some run \<and> (\<forall>r. run = Returns r \<longrightarrow> iterations r = 1))"
  using astar_first_step(1) [of ctx p h_factor g_factor 1] bfs_first_step(1) [of ctx p 1]
    solve_astar_limit_one [OF assms, of ctx h_factor g_factor] solve_bfs_limit_one [OF assms, of ctx]
  by blast

theorem iteration_limit_tested_before_increment_witness:
  "potentially_solvable problem_row3
   \<and> (\<exists>r. solve_astar ctx_row3 problem_row3 (1::int) 1 1 = Some (Returns r)
          \<and> solved r \<and> \<not> limit_exceeded r \<and> iterations r = 1)
   \<and> (\<exists>r. solve_bfs ctx_row3 problem_row3 1 = Some (Returns r)
          \<and> solved r \<and> \<not> limit_exceeded r \<and> iterations r = 1)"
proof -
  have ps: "potentially_solvable problem_row3" by (simp add: problem_row3_def)
  from iteration_limit_tested_before_increment [OF ps, of ctx_row3 "1::int" 1]
  obtain run1 run2 where
    a: "solve_astar ctx_row3 problem_row3 (1::int) 1 1 = Some run1"
      "\<forall>r. run1 = Returns r \<longrightarrow> iterations r = 1"
    and b: "solve_bfs ctx_row3 problem_row3 1 = Some run2"
      "\<forall>r. run2 = Returns r \<longrightarrow> iterations r = 1"
    by blast
  let ?r = "\<lparr> solved = True, actions = Some ''R'', iterations = 1, limit_exceeded = False \<rparr>"
  from a(1) solve_astar_row3 have 1: "run1 = Returns ?r" by simp
  from b(1) solve_bfs_row3 have 2: "run2 = Returns ?r" by simp
  have "\<exists>r. solve_astar ctx_row3 problem_row3 (1::int) 1 1 = Some (Returns r)
          \<and> solved r \<and> \<not> limit_exceeded r \<and> iterations r = 1"
    using a 1 by (intro exI [of _ ?r]) simp
  moreover have "\<exists>r. solve_bfs ctx_row3 problem_row3 1 = Some (Returns r)
          \<and> solved r \<and> \<not> limit_exceeded r \<and> iterations r = 1"
    using b 2 by (intro exI [of _ ?r]) simp
  ultimately show ?thesis using ps by blast
qed

section \<open>A state cache of one slot\<close>







section \<open>The capacity does not enter parse\_problem\<close>












section \<open>The level A.10 with capacity 0\<close>

definition ctx_row4 :: context_t where
  "ctx_row4 = create_context 4 1 0"

lemma ctx_row4_eq:
  "ctx_row4 = \<lparr> width = 6, height = 3, area = 18, bitset_size = 1, bitset_stride = 8,
                state_count = 1 \<rparr>"
  by (simp add: ctx_row4_def create_context_def)

lemma upt_18: "[0..<18] = [0, 1, 2, 3, 4, 5, 6, 7, 8, 9, 10, 11, 12, 13, 14, 15, 16, 17]"
  by (simp add: upt_rec)

lemma replicate_18:
  "replicate 18 (x::nat) = [x, x, x, x, x, x, x, x, x, x, x, x, x, x, x, x, x, x]"
  by (simp add: numeral_eq_Suc)

definition problem_row4 :: problem_t where
  "problem_row4 =
     \<lparr> goal_count = 1, player = 7, walls = [- 1921], goals = [1024], crates = [512],
       deadlocks = [- 1793],
       heuristics = [18, 18, 18, 18, 18, 18, 18, 18, 2, 1, 0, 18, 18, 18, 18, 18, 18, 18],
       compilable = True, potentially_solvable = True \<rparr>"

lemma suffix_tiles_row4:
  "suffix_tiles ctx_row4 (allocate_problem ctx_row4) ''A.10'' =
     \<lparr> ps_walls = [- 1921], ps_goals = [1024], ps_crates = [512], ps_player = 7,
       ps_position = 13, ps_goal_count = 1, ps_crate_count = 1,
       ps_player_count = 1, ps_rest = [] \<rparr>"
  by (simp add: ctx_row4_eq allocate_problem_def parse_eval)

lemma suffix_problem_row4:
  "suffix_problem ctx_row4 (allocate_problem ctx_row4) ''A.10'' = Some (problem_row4, True)"
proof -
  let ?p = "allocate_problem ctx_row4"
  define st where "st = suffix_tiles ctx_row4 ?p ''A.10''"
  define p1 where "p1 = ?p\<lparr> walls := ps_walls st, goals := ps_goals st, crates := ps_crates st,
                  player := ps_player st, goal_count := ps_goal_count st \<rparr>"
  define p2 where "p2 = p1\<lparr> compilable := True \<rparr>"
  define p3 where "p3 = p2\<lparr> deadlocks := [- 1793],
     heuristics := [18, 18, 18, 18, 18, 18, 18, 18, 2, 1, 0, 18, 18, 18, 18, 18, 18, 18] \<rparr>"
  have st: "st = \<lparr> ps_walls = [- 1921], ps_goals = [1024], ps_crates = [512], ps_player = 7,
       ps_position = 13, ps_goal_count = 1, ps_crate_count = 1,
       ps_player_count = 1, ps_rest = [] \<rparr>"
    unfolding st_def by (rule suffix_tiles_row4)
  have p2: "p2 = \<lparr> goal_count = 1, player = 7, walls = [- 1921], goals = [1024], crates = [512],
       deadlocks = [0], heuristics = replicate 18 0,
       compilable = True, potentially_solvable = False \<rparr>"
    by (simp add: p2_def p1_def st allocate_problem_def ctx_row4_eq bitset_zeros_def)
  have v1: "True = (ps_player_count st = 1 \<and> ps_goal_count st = ps_crate_count st
                   \<and> \<not> bitset_equals (crates p1) (goals p1) (bitset_size ctx_row4))"
    by (simp add: p1_def st ctx_row4_eq)
  have c2: "\<not> check_all_2x2_deadlock ctx_row4 p2"
    by (simp add: p2 ctx_row4_eq check_all_eval)
  then have v2: "True = (if True then \<not> check_all_2x2_deadlock ctx_row4 p2 else True)" by simp
  have "deadlock_maps ctx_row4 p2
          = Some ([- 1793], [18, 18, 18, 18, 18, 18, 18, 18, 2, 1, 0, 18, 18, 18, 18, 18, 18, 18])"
    unfolding deadlock_maps_def p2 ctx_row4_eq
    by (simp add: upt_18 replicate_18) (simp add: deadlock_eval)
  then have g: "(if True then generate_deadlock_map ctx_row4 p2 else Some p2) = Some p3"
    by (simp add: generate_deadlock_map_maps p3_def)
  have p3: "p3 = \<lparr> goal_count = 1, player = 7, walls = [- 1921], goals = [1024], crates = [512],
       deadlocks = [- 1793],
       heuristics = [18, 18, 18, 18, 18, 18, 18, 18, 2, 1, 0, 18, 18, 18, 18, 18, 18, 18],
       compilable = True, potentially_solvable = False \<rparr>"
    by (simp add: p3_def p2)
  have v3: "True = (if True
                   then \<not> bitset_covers_any (crates p3) (deadlocks p3) (bitset_size ctx_row4)
                   else True)"
    by (simp add: p3 ctx_row4_eq)
  have r: "(if True
              then check_reachability ctx_row4 (crates p3) (goals p3) (walls p3) (player p3)
              else Some True) = Some True"
    by (simp add: p3 ctx_row4_eq reach_eval)
  from suffix_problem_unfold [OF st_def p1_def v1 p2_def v2 g v3 r]
  show ?thesis by (simp add: p3 problem_row4_def)
qed

lemma parse_problem_row4:
  "parse_problem ctx_row4 (allocate_problem ctx_row4) ''A.10'' = Some (problem_row4, True)"
  by (simp add: parse_problem_suffix strlen_small suffix_problem_row4)

text \<open>The first successor of the root is the player's step to the right; it is written
  into slot 1 of a cache of one slot.\<close>

lemma solve_bfs_row4:
  "solve_bfs ctx_row4 problem_row4 0 = Some OutOfBounds"
proof -
  have st: "bfs_step ctx_row4 problem_row4 0 (bfs_init problem_row4) =
     \<lparr> bfs_cache = [\<lparr> parent = None, action = CHR 0x00, s_player = 7, s_crates = [512],
                       cost = 0 \<rparr>],
       bfs_map = [0], bfs_current = 1, bfs_free_bits = 0, bfs_iterations = 1,
       bfs_result = Some OutOfBounds \<rparr>"
    by (simp add: bfs_step_def bfs_init_def hashmap_set_def foldl_upt_4 bfs_expand_def
        bfs_child_def ctx_row4_eq problem_row4_def search_eval)
  have "bfs_loop ctx_row4 problem_row4 0
        = Some (bfs_step ctx_row4 problem_row4 0 (bfs_init problem_row4))"
    unfolding bfs_loop_def
  proof (rule while_option_once)
    show "bfs_result (bfs_init problem_row4) = None
          \<and> bfs_current (bfs_init problem_row4) \<noteq> length (bfs_cache (bfs_init problem_row4))"
      by (simp add: bfs_init_def)
    show "\<not> (bfs_result (bfs_step ctx_row4 problem_row4 0 (bfs_init problem_row4)) = None
             \<and> bfs_current (bfs_step ctx_row4 problem_row4 0 (bfs_init problem_row4))
                 \<noteq> length (bfs_cache (bfs_step ctx_row4 problem_row4 0 (bfs_init problem_row4))))"
      unfolding st by simp
  qed
  then show ?thesis
    unfolding solve_bfs_def st by (simp add: problem_row4_def)
qed

section \<open>C9: solve\_bfs with capacity 0\<close>







end
